theory Spec2Isabelle
  imports Complex_Main "HOL-Library.Sublist"
begin

text \<open>
  A model of the chat function of the Mentora application (\<open>/api/chat/index.js\<close>): the
  in-memory rate limiter \<open>isRateLimited\<close>, the validation and redaction of the message
  list in \<open>validateAndSanitizeInput\<close>, the CORS helper \<open>getCorsHeaders\<close>, and the part of
  the handler that builds the body of the outbound call. Exceptions are values of the
  type \<open>error\<close>; the store of the rate limiter and the clock are passed explicitly.
\<close>

section \<open>JavaScript strings\<close>

text \<open>
  A JavaScript string is a sequence of UTF-16 code units, and \<open>length\<close>, the regular
  expression classes and \<open>trim\<close> all work on code units. A code unit is modelled as a
  natural number; \<open>js\<close> turns an ASCII literal into its code units.
\<close>

type_synonym jsstring = "nat list"

definition js :: "string \<Rightarrow> jsstring" where
  "js s = map of_char s"

section \<open>The rate limiter\<close>

text \<open>
  \<open>rateLimitStore\<close> is a \<open>Map\<close> from client id to an object with the fields
  \<open>count\<close> and \<open>resetTime\<close>. \<open>Date.now()\<close> is the parameter \<open>now\<close>: an integer number
  of milliseconds. The mutation of the store is returned as the new store. The count
  starts at 0 or 1 and is only ever incremented, so it is a natural number (a JavaScript
  number counts exactly up to \<open>2^53\<close>).
\<close>

record clientData =
  count :: nat
  resetTime :: int

type_synonym rateLimitStore = "jsstring \<rightharpoonup> clientData"

definition RATE_LIMIT_WINDOW :: int where
  "RATE_LIMIT_WINDOW = 60000"

definition RATE_LIMIT_MAX_REQUESTS :: nat where
  "RATE_LIMIT_MAX_REQUESTS = 30"

definition isRateLimited :: "int \<Rightarrow> jsstring \<Rightarrow> rateLimitStore \<Rightarrow> bool \<times> rateLimitStore" where
  "isRateLimited now clientId store =
     (let clientData0 = (case store clientId of
                           Some d \<Rightarrow> d
                         | None \<Rightarrow> \<lparr>count = 0, resetTime = now + RATE_LIMIT_WINDOW\<rparr>);
          clientData1 = (if now > resetTime clientData0
                         then \<lparr>count = 1, resetTime = now + RATE_LIMIT_WINDOW\<rparr>
                         else clientData0\<lparr>count := count clientData0 + 1\<rparr>)
      in (count clientData1 > RATE_LIMIT_MAX_REQUESTS, store(clientId \<mapsto> clientData1)))"

text \<open>Successive calls for one client at the given times; the answers in call order.\<close>

fun calls :: "jsstring \<Rightarrow> rateLimitStore \<Rightarrow> int list \<Rightarrow> bool list \<times> rateLimitStore" where
  "calls clientId store [] = ([], store)"
| "calls clientId store (t # ts) =
     (case isRateLimited t clientId store of
        (b, store') \<Rightarrow> (case calls clientId store' ts of (bs, store'') \<Rightarrow> (b # bs, store'')))"

section \<open>Values parsed from JSON\<close>

text \<open>
  The request body is what \<open>request.json()\<close> returns: null, a boolean, a number, a
  string, an array or an object with string keys. \<open>undefined\<close> (a property that is not
  there) is \<open>None\<close> of \<open>jsval option\<close>. An object is the list of its properties, read
  with \<open>map_of\<close>. Numbers are modelled as rationals: the handler only compares them, so
  no rounding takes place (the infinities that \<open>JSON.parse\<close> gives for a numeral beyond
  the range of a double are left out).
\<close>

datatype jsval =
    JNull
  | JBool bool
  | JNum rat
  | JStr jsstring
  | JArr "jsval list"
  | JObj "(jsstring \<times> jsval) list"

datatype error = TypeError | Error string

text \<open>
  Reading a property: \<open>null.p\<close> throws a TypeError, an object gives its own property,
  and the other values have none of the properties the handler reads (\<open>role\<close>,
  \<open>content\<close>, \<open>messages\<close>, \<open>maxTokens\<close>, \<open>temperature\<close>).
\<close>

fun get_prop :: "jsval \<Rightarrow> jsstring \<Rightarrow> error + jsval option" where
  "get_prop JNull k = Inl TypeError"
| "get_prop (JObj kvs) k = Inr (map_of kvs k)"
| "get_prop v k = Inr None"

text \<open>JavaScript truthiness, as \<open>!x\<close> tests it.\<close>

fun truthy :: "jsval option \<Rightarrow> bool" where
  "truthy None = False"
| "truthy (Some JNull) = False"
| "truthy (Some (JBool b)) = b"
| "truthy (Some (JNum n)) = (n \<noteq> 0)"
| "truthy (Some (JStr s)) = (s \<noteq> [])"
| "truthy (Some (JArr vs)) = True"
| "truthy (Some (JObj kvs)) = True"

section \<open>Regular expressions\<close>

text \<open>
  The fragment of ECMAScript regular expressions that the source uses: a character
  class, a greedy repetition \<open>{lo,hi}\<close>, \<open>+\<close> or \<open>*\<close> of a character class, and the
  word boundary \<open>\b\<close>. A class is a list of inclusive code unit ranges, or the dot, which
  matches every code unit but the four line terminators.
\<close>

datatype cset = Ranges "(nat \<times> nat) list" | Dot

datatype item = Cls cset | Rep nat "nat option" cset | WordB

type_synonym regex = "item list"

definition rng :: "char \<Rightarrow> char \<Rightarrow> nat \<times> nat" where
  "rng a b = (of_char a, of_char b)"

definition chr :: "char \<Rightarrow> nat \<times> nat" where
  "chr a = (of_char a, of_char a)"

fun in_cset :: "cset \<Rightarrow> nat \<Rightarrow> bool" where
  "in_cset (Ranges rs) c = list_ex (\<lambda>(l, h). l \<le> c \<and> c \<le> h) rs"
| "in_cset Dot c = (c \<noteq> 10 \<and> c \<noteq> 13 \<and> c \<noteq> 8232 \<and> c \<noteq> 8233)"

text \<open>\<open>\w\<close> is \<open>[A-Za-z0-9_]\<close>; the position before the first and after the last code
  unit counts as a non-word neighbour.\<close>

definition is_word :: "nat \<Rightarrow> bool" where
  "is_word c = in_cset (Ranges [rng CHR ''a'' CHR ''z'', rng CHR ''A'' CHR ''Z'',
                                rng CHR ''0'' CHR ''9'', chr CHR ''_'']) c"

fun is_wordo :: "nat option \<Rightarrow> bool" where
  "is_wordo None = False"
| "is_wordo (Some c) = is_word c"

fun hdo :: "'a list \<Rightarrow> 'a option" where
  "hdo [] = None"
| "hdo (x # xs) = Some x"

fun dec :: "nat option \<Rightarrow> nat option" where
  "dec None = None"
| "dec (Some h) = Some (h - 1)"

text \<open>
  \<open>match_at re prev s\<close> runs the backtracking matcher at the start of \<open>s\<close>, where
  \<open>prev\<close> is the code unit before it, and gives the length of the match it finds. A
  greedy repetition first tries one more code unit and everything after it, and falls
  back to stopping only when that fails and the lower bound is met.
\<close>

fun match_at :: "regex \<Rightarrow> nat option \<Rightarrow> jsstring \<Rightarrow> nat option" where
  "match_at [] prev s = Some 0"
| "match_at (WordB # r) prev s =
     (if is_wordo prev \<noteq> is_wordo (hdo s) then match_at r prev s else None)"
| "match_at (Cls P # r) prev [] = None"
| "match_at (Cls P # r) prev (c # cs) =
     (if in_cset P c then map_option Suc (match_at r (Some c) cs) else None)"
| "match_at (Rep lo hi P # r) prev [] = (if lo = 0 then match_at r prev [] else None)"
| "match_at (Rep lo hi P # r) prev (c # cs) =
     (case (if hi \<noteq> Some 0 \<and> in_cset P c
            then map_option Suc (match_at (Rep (lo - 1) (dec hi) P # r) (Some c) cs)
            else None) of
        Some n \<Rightarrow> Some n
      | None \<Rightarrow> if lo = 0 then match_at r prev (c # cs) else None)"

text \<open>
  \<open>str.replace(re, tok)\<close> for a global \<open>re\<close>: scan from the left, replace the match
  found at the leftmost position, go on after it. After an empty match the scan moves on
  by one code unit.
\<close>

fun lasto :: "'a list \<Rightarrow> 'a option" where
  "lasto [] = None"
| "lasto (x # xs) = Some (last (x # xs))"

function replaceAll :: "regex \<Rightarrow> jsstring \<Rightarrow> nat option \<Rightarrow> jsstring \<Rightarrow> jsstring" where
  "replaceAll re tok prev [] = (case match_at re prev [] of Some n \<Rightarrow> tok | None \<Rightarrow> [])"
| "replaceAll re tok prev (c # cs) =
     (case match_at re prev (c # cs) of
        None \<Rightarrow> c # replaceAll re tok (Some c) cs
      | Some 0 \<Rightarrow> tok @ c # replaceAll re tok (Some c) cs
      | Some (Suc k) \<Rightarrow> tok @ replaceAll re tok (lasto (take (Suc k) (c # cs))) (drop k cs))"
  by pat_completeness auto
termination
  by (relation "measure (\<lambda>(re, tok, prev, s). length s)") auto

text \<open>\<open>re.test(s)\<close> for a regular expression without flags: a match at some position.\<close>

fun test :: "regex \<Rightarrow> nat option \<Rightarrow> jsstring \<Rightarrow> bool" where
  "test re prev [] = (match_at re prev [] \<noteq> None)"
| "test re prev (c # cs) = (match_at re prev (c # cs) \<noteq> None \<or> test re (Some c) cs)"

section \<open>Validation and sanitization\<close>

definition MAX_MESSAGE_LENGTH :: nat where
  "MAX_MESSAGE_LENGTH = 4000"

definition digit :: cset where
  "digit = Ranges [rng CHR ''0'' CHR ''9'']"

text \<open>\<^verbatim>\<open>/\b\d{3}-\d{2}-\d{4}\b/g\<close>\<close>

definition SSN :: regex where
  "SSN = [WordB, Rep 3 (Some 3) digit, Cls (Ranges [chr CHR ''-'']), Rep 2 (Some 2) digit,
          Cls (Ranges [chr CHR ''-'']), Rep 4 (Some 4) digit, WordB]"

text \<open>\<^verbatim>\<open>/\b\d{10,16}\b/g\<close>\<close>

definition LONG_ID :: regex where
  "LONG_ID = [WordB, Rep 10 (Some 16) digit, WordB]"

text \<open>\<^verbatim>\<open>/\b[A-Za-z0-9._%+-]+@[A-Za-z0-9.-]+\.[A-Z|a-z]{2,}\b/g\<close>\<close>

definition EMAIL :: regex where
  "EMAIL = [WordB,
            Rep 1 None (Ranges [rng CHR ''A'' CHR ''Z'', rng CHR ''a'' CHR ''z'',
                                rng CHR ''0'' CHR ''9'', chr CHR ''.'', chr CHR ''_'',
                                chr CHR ''%'', chr CHR ''+'', chr CHR ''-'']),
            Cls (Ranges [chr CHR ''@'']),
            Rep 1 None (Ranges [rng CHR ''A'' CHR ''Z'', rng CHR ''a'' CHR ''z'',
                                rng CHR ''0'' CHR ''9'', chr CHR ''.'', chr CHR ''-'']),
            Cls (Ranges [chr CHR ''.'']),
            Rep 2 None (Ranges [rng CHR ''A'' CHR ''Z'', chr CHR ''|'',
                                rng CHR ''a'' CHR ''z'']),
            WordB]"

definition REDACTED_SSN :: jsstring where
  "REDACTED_SSN = js ''[REDACTED-SSN]''"

definition REDACTED_ID :: jsstring where
  "REDACTED_ID = js ''[REDACTED-ID]''"

definition REDACTED_EMAIL :: jsstring where
  "REDACTED_EMAIL = js ''[REDACTED-EMAIL]''"

text \<open>The three \<open>replace\<close> calls, in the order of the source.\<close>

definition redact :: "jsstring \<Rightarrow> jsstring" where
  "redact s =
     replaceAll EMAIL REDACTED_EMAIL None
       (replaceAll LONG_ID REDACTED_ID None
         (replaceAll SSN REDACTED_SSN None s))"

text \<open>\<open>trim\<close> removes the white space and line terminator code units at both ends.\<close>

definition is_space :: "nat \<Rightarrow> bool" where
  "is_space c = (c \<in> {9, 10, 11, 12, 13, 32, 160, 5760, 8232, 8233, 8239, 8287, 12288, 65279}
                 \<or> (8192 \<le> c \<and> c \<le> 8202))"

definition trim :: "jsstring \<Rightarrow> jsstring" where
  "trim s = rev (dropWhile is_space (rev (dropWhile is_space s)))"

definition sanitize :: "jsstring \<Rightarrow> jsstring" where
  "sanitize s = trim (redact s)"

record message =
  role :: jsstring
  content :: jsstring

definition roles :: "jsstring list" where
  "roles = [js ''user'', js ''assistant'', js ''system'']"

text \<open>The callback of \<open>messages.map\<close>: the checks in the order of the source.\<close>

definition check_message :: "jsval \<Rightarrow> error + message" where
  "check_message msg =
     (case get_prop msg (js ''role'') of
        Inl e \<Rightarrow> Inl e
      | Inr r \<Rightarrow>
         (case get_prop msg (js ''content'') of
            Inl e \<Rightarrow> Inl e
          | Inr c \<Rightarrow>
             if \<not> truthy r \<or> \<not> truthy c
             then Inl (Error ''Each message must have role and content'')
             else (case r of
                 Some (JStr rs) \<Rightarrow>
                   if rs \<notin> set roles then Inl (Error ''Invalid message role'')
                   else (case c of
                       Some (JStr cs) \<Rightarrow>
                         if length cs > MAX_MESSAGE_LENGTH
                         then Inl (Error ''Message content too long (max 4000 characters)'')
                         else Inr \<lparr>role = rs, content = trim (redact cs)\<rparr>
                     | _ \<Rightarrow> Inl (Error ''Message content too long (max 4000 characters)''))
               | _ \<Rightarrow> Inl (Error ''Invalid message role''))))"

text \<open>\<open>Array.prototype.map\<close>: left to right, the first exception ends the call.\<close>

fun map_messages :: "jsval list \<Rightarrow> error + message list" where
  "map_messages [] = Inr []"
| "map_messages (msg # msgs) =
     (case check_message msg of
        Inl e \<Rightarrow> Inl e
      | Inr m \<Rightarrow> (case map_messages msgs of Inl e \<Rightarrow> Inl e | Inr ms \<Rightarrow> Inr (m # ms)))"

fun validateAndSanitizeInput :: "jsval option \<Rightarrow> error + message list" where
  "validateAndSanitizeInput (Some (JArr msgs)) =
     (if msgs = [] then Inl (Error ''Messages must be a non-empty array'')
      else if length msgs > 10 then Inl (Error ''Too many messages in conversation'')
      else map_messages msgs)"
| "validateAndSanitizeInput v = Inl (Error ''Messages must be a non-empty array'')"

section \<open>CORS headers\<close>

definition ALLOWED_ORIGINS :: "jsstring list" where
  "ALLOWED_ORIGINS = [js ''https://mentora-app.azurestaticapps.net'',
                      js ''https://*.azurestaticapps.net'']"

text \<open>The argument of \<open>getCorsHeaders\<close>: what \<open>request.headers.get\<close> gives, a string or
  \<open>null\<close>, or \<open>undefined\<close>.\<close>

datatype origin = Undefined | Null | Str jsstring

fun to_string :: "origin \<Rightarrow> jsstring" where
  "to_string Undefined = js ''undefined''"
| "to_string Null = js ''null''"
| "to_string (Str s) = s"

text \<open>\<open>allowedOrigin.replace('*', '.*')\<close>: a string pattern replaces its first occurrence.\<close>

fun replace_star :: "jsstring \<Rightarrow> jsstring" where
  "replace_star [] = []"
| "replace_star (c # cs) = (if c = of_char CHR ''*'' then js ''.*'' @ cs else c # replace_star cs)"

text \<open>
  \<open>new RegExp(pattern)\<close> for the patterns made of literal code units, the dot and a
  star after either. A pattern with another syntax character is outside the model:
  \<open>None\<close>.
\<close>

definition syntax_chars :: "nat set" where
  "syntax_chars = insert 92 (of_char ` set ''^$.*+?()[]{}|'')"

fun atom :: "nat \<Rightarrow> cset" where
  "atom c = (if c = of_char CHR ''.'' then Dot else Ranges [(c, c)])"

fun RegExp :: "jsstring \<Rightarrow> regex option" where
  "RegExp [] = Some []"
| "RegExp [c] =
     (if c \<in> syntax_chars - {of_char CHR ''.''} then None else Some [Cls (atom c)])"
| "RegExp (c # d # cs) =
     (if c \<in> syntax_chars - {of_char CHR ''.''} then None
      else if d = of_char CHR ''*'' then map_option (Cons (Rep 0 None (atom c))) (RegExp cs)
      else map_option (Cons (Cls (atom c))) (RegExp (d # cs)))"

text \<open>\<open>ALLOWED_ORIGINS.some(...)\<close>, left to right, stopping at the first entry that
  matches.\<close>

fun some_allowed :: "jsstring list \<Rightarrow> origin \<Rightarrow> bool option" where
  "some_allowed [] origin = Some False"
| "some_allowed (allowedOrigin # rest) origin =
     (if of_char CHR ''*'' \<in> set allowedOrigin
      then (case RegExp (replace_star allowedOrigin) of
              None \<Rightarrow> None
            | Some re \<Rightarrow> if test re None (to_string origin) then Some True
                         else some_allowed rest origin)
      else if Str allowedOrigin = origin then Some True
      else some_allowed rest origin)"

text \<open>The value of \<open>Access-Control-Allow-Origin\<close>; \<open>allowed[0]\<close> of an empty list is
  \<open>undefined\<close>.\<close>

definition allow_origin :: "jsstring list \<Rightarrow> origin \<Rightarrow> origin option" where
  "allow_origin allowed origin =
     (case some_allowed allowed origin of
        None \<Rightarrow> None
      | Some isAllowedOrigin \<Rightarrow>
          Some (if isAllowedOrigin then origin
                else (case allowed of [] \<Rightarrow> Undefined | a # _ \<Rightarrow> Str a)))"

definition getCorsHeaders :: "origin \<Rightarrow> (string \<times> origin) list option" where
  "getCorsHeaders origin =
     map_option (\<lambda>v.
       [(''Access-Control-Allow-Origin'', v),
        (''Access-Control-Allow-Methods'', Str (js ''POST, OPTIONS'')),
        (''Access-Control-Allow-Headers'', Str (js ''Content-Type, Authorization, X-Session-ID'')),
        (''Access-Control-Max-Age'', Str (js ''86400'')),
        (''Strict-Transport-Security'', Str (js ''max-age=31536000; includeSubDomains'')),
        (''X-Content-Type-Options'', Str (js ''nosniff'')),
        (''X-Frame-Options'', Str (js ''DENY'')),
        (''X-XSS-Protection'', Str (js ''1; mode=block''))])
       (allow_origin ALLOWED_ORIGINS origin)"

text \<open>\<open>request.headers.get('origin') || request.headers.get('Origin')\<close>, from the results
  of the two lookups (\<open>None\<close> is \<open>null\<close>).\<close>

fun request_origin :: "jsstring option \<Rightarrow> jsstring option \<Rightarrow> origin" where
  "request_origin (Some s) second = (if s \<noteq> [] then Str s else (case second of None \<Rightarrow> Null | Some t \<Rightarrow> Str t))"
| "request_origin None second = (case second of None \<Rightarrow> Null | Some t \<Rightarrow> Str t)"

section \<open>The body of the outbound call\<close>

text \<open>
  A JavaScript number that \<open>Math.min\<close> and \<open>Math.max\<close> work on: \<open>NaN\<close> or a value.
  \<open>JSON.stringify\<close> writes \<open>NaN\<close> as \<open>null\<close>.
\<close>

datatype jsnum = NaN | Num rat





record outbound =
  messages :: "message list"
  max_tokens :: jsnum
  temperature :: jsnum
  top_p :: rat
  frequency_penalty :: rat
  presence_penalty :: rat



section \<open>The conditions as the specification words them\<close>

text \<open>The field of a message, where it is an object that has it.\<close>

definition field :: "jsval \<Rightarrow> jsstring \<Rightarrow> jsval option" where
  "field v k = (case v of JObj kvs \<Rightarrow> map_of kvs k | _ \<Rightarrow> None)"

text \<open>
  The specification's list of failures of \<open>validate\<close>: an element lacks a role or
  content field, its role is outside the enumerated set, its content is not text or is
  longer than the maximum.
\<close>

definition spec_bad_message :: "jsval \<Rightarrow> bool" where
  "spec_bad_message e =
     (field e (js ''role'') = None \<or> field e (js ''content'') = None \<or>
      (case field e (js ''role'') of Some (JStr r) \<Rightarrow> r \<notin> set roles | _ \<Rightarrow> True) \<or>
      (case field e (js ''content'') of Some (JStr c) \<Rightarrow> length c > 4000 | _ \<Rightarrow> True))"

text \<open>The input is absent, not a sequence or empty, it has more than 10 elements, or
  an element is bad.\<close>

fun spec_rejects :: "jsval option \<Rightarrow> bool" where
  "spec_rejects (Some (JArr msgs)) =
     (msgs = [] \<or> length msgs > 10 \<or> list_ex spec_bad_message msgs)"
| "spec_rejects v = True"

definition empty_content :: "jsval \<Rightarrow> bool" where
  "empty_content e = (field e (js ''content'') = Some (JStr []))"

text \<open>
  A ValidationError is the \<open>Error\<close> that the validation itself throws, with one of its
  five reasons. \<open>null_reached\<close>: the array passes the two length checks and the first
  element that the callback fails on is \<open>null\<close>.
\<close>

definition validation_reasons :: "string list" where
  "validation_reasons =
     [''Messages must be a non-empty array'', ''Too many messages in conversation'',
      ''Each message must have role and content'', ''Invalid message role'',
      ''Message content too long (max 4000 characters)'']"

definition offending :: "jsval \<Rightarrow> bool" where
  "offending e = (spec_bad_message e \<or> empty_content e)"

fun null_reached :: "jsval option \<Rightarrow> bool" where
  "null_reached (Some (JArr msgs)) =
     (msgs \<noteq> [] \<and> length msgs \<le> 10 \<and> find offending msgs = Some JNull)"
| "null_reached v = False"


text \<open>
  An origin matches an allow-list entry: it is the entry, or it is the entry with its
  \<open>*\<close> replaced by some text.
\<close>

definition spec_entry_matches :: "jsstring \<Rightarrow> jsstring \<Rightarrow> bool" where
  "spec_entry_matches entry origin =
     (if of_char CHR ''*'' \<in> set entry
      then (let pre = takeWhile (\<lambda>c. c \<noteq> of_char CHR ''*'') entry;
                post = tl (dropWhile (\<lambda>c. c \<noteq> of_char CHR ''*'') entry)
            in length pre + length post \<le> length origin \<and>
               take (length pre) origin = pre \<and>
               drop (length origin - length post) origin = post)
      else entry = origin)"

text \<open>The shape \<open>\d{3}-\d{2}-\d{4}\<close>, code unit by code unit.\<close>

definition ssn_shape :: "cset list" where
  "ssn_shape = [digit, digit, digit, Ranges [chr CHR ''-''], digit, digit,
                Ranges [chr CHR ''-''], digit, digit, digit, digit]"

definition is_ssn :: "jsstring \<Rightarrow> bool" where
  "is_ssn w = list_all2 in_cset ssn_shape w"

section \<open>Notions used in the proofs\<close>

text \<open>
  \<open>avoids re c\<close>: no class of \<open>re\<close> holds \<open>c\<close>. A barrier of \<open>re\<close> is a non-word code
  unit that \<open>re\<close> avoids: no match of \<open>re\<close> contains it, and next to a match it counts
  like the end of the string. \<open>minlen\<close> is the least length of a match. \<open>ctx prev a\<close> is
  the code unit before the position that follows \<open>a\<close>. \<open>noMatch re prev s\<close>: the matcher
  fails at every position of \<open>s\<close>.
\<close>

fun avoids :: "regex \<Rightarrow> nat \<Rightarrow> bool" where
  "avoids [] c = True"
| "avoids (Cls P # r) c = (\<not> in_cset P c \<and> avoids r c)"
| "avoids (Rep lo hi P # r) c = (\<not> in_cset P c \<and> avoids r c)"
| "avoids (WordB # r) c = avoids r c"

definition barrier :: "regex \<Rightarrow> nat \<Rightarrow> bool" where
  "barrier re c = (\<not> is_word c \<and> avoids re c)"

fun minlen :: "regex \<Rightarrow> nat" where
  "minlen [] = 0"
| "minlen (Cls P # r) = Suc (minlen r)"
| "minlen (Rep lo hi P # r) = lo + minlen r"
| "minlen (WordB # r) = minlen r"

fun ctx :: "nat option \<Rightarrow> jsstring \<Rightarrow> nat option" where
  "ctx prev [] = prev"
| "ctx prev (x # xs) = Some (last (x # xs))"

fun noMatch :: "regex \<Rightarrow> nat option \<Rightarrow> jsstring \<Rightarrow> bool" where
  "noMatch re prev [] = True"
| "noMatch re prev (c # cs) = (match_at re prev (c # cs) = None \<and> noMatch re (Some c) cs)"

text \<open>The redaction patterns start and end with a word boundary and match no empty
  text; a token is inert for a pattern when its first and last code unit are barriers
  and nothing between them matches.\<close>

definition bounded :: "regex \<Rightarrow> bool" where
  "bounded re = (re \<noteq> [] \<and> hd re = WordB \<and> last re = WordB \<and> 0 < minlen re)"

definition inert :: "regex \<Rightarrow> jsstring \<Rightarrow> bool" where
  "inert q tok = (\<exists>l mid r. tok = l # mid @ [r] \<and> barrier q l \<and> barrier q r \<and> noMatch q None mid)"

section \<open>Properties of the rate limiter\<close>

lemma isRateLimited_in_window:
  assumes "store k = Some d" and "now \<le> resetTime d"
  shows "isRateLimited now k store =
           (count d + 1 > RATE_LIMIT_MAX_REQUESTS, store(k \<mapsto> d\<lparr>count := count d + 1\<rparr>))"
  using assms by (simp add: isRateLimited_def)

lemma isRateLimited_fresh:
  assumes "store k = None"
  shows "isRateLimited now k store =
           (False, store(k \<mapsto> \<lparr>count = 1, resetTime = now + RATE_LIMIT_WINDOW\<rparr>))"
  using assms by (simp add: isRateLimited_def RATE_LIMIT_WINDOW_def RATE_LIMIT_MAX_REQUESTS_def)

lemma isRateLimited_expired:
  assumes "store k = Some d" and "resetTime d < now"
  shows "isRateLimited now k store =
           (False, store(k \<mapsto> \<lparr>count = 1, resetTime = now + RATE_LIMIT_WINDOW\<rparr>))"
  using assms by (simp add: isRateLimited_def RATE_LIMIT_MAX_REQUESTS_def)

lemma isRateLimited_other:
  "k' \<noteq> k \<Longrightarrow> snd (isRateLimited now k' store) k = store k"
  by (simp add: isRateLimited_def Let_def)

lemma calls_in_window:
  assumes "store k = Some d" and "\<forall>t \<in> set ts. t \<le> resetTime d"
  shows "calls k store ts =
           (map (\<lambda>i. count d + Suc i > RATE_LIMIT_MAX_REQUESTS) [0..<length ts],
            if ts = [] then store else store(k \<mapsto> d\<lparr>count := count d + length ts\<rparr>))"
  using assms
proof (induction ts arbitrary: store d)
  case Nil
  then show ?case by simp
next
  case (Cons t ts)
  let ?d = "d\<lparr>count := count d + 1\<rparr>"
  let ?s = "store(k \<mapsto> ?d)"
  have step: "isRateLimited t k store = (count d + 1 > RATE_LIMIT_MAX_REQUESTS, ?s)"
    using Cons.prems by (simp add: isRateLimited_in_window)
  have ih: "calls k ?s ts =
      (map (\<lambda>i. count ?d + Suc i > RATE_LIMIT_MAX_REQUESTS) [0..<length ts],
       if ts = [] then ?s else ?s(k \<mapsto> ?d\<lparr>count := count ?d + length ts\<rparr>))"
    using Cons.prems by (intro Cons.IH) auto
  have shift: "map (\<lambda>i. count d + Suc i > RATE_LIMIT_MAX_REQUESTS) [0..<Suc (length ts)] =
      (count d + 1 > RATE_LIMIT_MAX_REQUESTS) #
        map (\<lambda>i. count ?d + Suc i > RATE_LIMIT_MAX_REQUESTS) [0..<length ts]"
    by (simp add: upt_rec [of 0] map_Suc_upt [symmetric] del: upt_Suc)
  show ?case
    using step ih shift by (auto simp del: upt_Suc)
qed

lemma calls_append:
  "calls k store (xs @ ys) =
     (case calls k store xs of
        (bs, store') \<Rightarrow> (case calls k store' ys of (cs, store'') \<Rightarrow> (bs @ cs, store'')))"
  by (induction xs arbitrary: store) (auto split: prod.splits)

lemma thirty_answers:
  "map (\<lambda>i. RATE_LIMIT_MAX_REQUESTS < Suc 0 + Suc i) [0..<30] = replicate 29 False @ [True]"
  unfolding RATE_LIMIT_MAX_REQUESTS_def by code_simp

text \<open>
  C1. For a client id that the store does not hold, the first call and the next 29
  calls made no later than the stored reset time answer not-limited, the 31st call in the
  same window answers limited, and a call made after the stored reset time answers
  not-limited and starts a new window with count 1.
\<close>

theorem isRateLimited_window:
  assumes fresh: "store k = None"
    and len: "length ts = 30"
    and inside: "\<forall>t \<in> set ts. t \<le> t0 + RATE_LIMIT_WINDOW"
    and later: "t0 + RATE_LIMIT_WINDOW < t'"
  shows "calls k store (t0 # ts @ [t']) =
           (replicate 30 False @ [True, False],
            store(k \<mapsto> \<lparr>count = 1, resetTime = t' + RATE_LIMIT_WINDOW\<rparr>))"
proof -
  let ?d1 = "\<lparr>count = 1, resetTime = t0 + RATE_LIMIT_WINDOW\<rparr>"
  let ?s1 = "store(k \<mapsto> ?d1)"
  let ?d2 = "?d1\<lparr>count := count ?d1 + length ts\<rparr>"
  let ?s2 = "?s1(k \<mapsto> ?d2)"
  have first: "isRateLimited t0 k store = (False, ?s1)"
    using fresh by (rule isRateLimited_fresh)
  have "ts \<noteq> []" using len by auto
  then have mid: "calls k ?s1 ts = (replicate 29 False @ [True], ?s2)"
    using calls_in_window [of ?s1 k ?d1 ts] inside len thirty_answers by simp
  have last: "isRateLimited t' k ?s2 =
      (False, ?s2(k \<mapsto> \<lparr>count = 1, resetTime = t' + RATE_LIMIT_WINDOW\<rparr>))"
    using later by (intro isRateLimited_expired [of ?s2 k ?d2]) auto
  have "calls k ?s1 (ts @ [t']) =
      (replicate 29 False @ [True, False],
       ?s2(k \<mapsto> \<lparr>count = 1, resetTime = t' + RATE_LIMIT_WINDOW\<rparr>))"
    using mid last by (simp add: calls_append)
  moreover have "False # replicate 29 False = replicate 30 False"
    by (simp add: numeral_eq_Suc)
  ultimately show ?thesis
    using first by simp
qed

theorem isRateLimited_window_witness:
  "calls (js ''203.0.113.7'') Map.empty (0 # replicate 30 59999 @ [60001]) =
     (replicate 30 False @ [True, False],
      [js ''203.0.113.7'' \<mapsto> \<lparr>count = 1, resetTime = 120001\<rparr>])"
  using isRateLimited_window [of Map.empty "js ''203.0.113.7''" "replicate 30 59999" 0 60001]
  by (simp add: RATE_LIMIT_WINDOW_def)

text \<open>
  C9. Every call stores an entry for the client id whose count is at least 1, also a
  call that answers limited. A call made no later than the stored reset time adds exactly
  1 to the stored count and keeps the stored reset time. Hence a client whose stored
  count has reached the maximum is answered not-limited only by a call made after the
  stored reset time.
\<close>

theorem isRateLimited_records:
  "(\<exists>d. snd (isRateLimited now k store) k = Some d \<and> 1 \<le> count d) \<and>
   (\<forall>d. store k = Some d \<and> now \<le> resetTime d \<longrightarrow>
        snd (isRateLimited now k store) k = Some (d\<lparr>count := count d + 1\<rparr>)) \<and>
   (\<forall>d. store k = Some d \<and> RATE_LIMIT_MAX_REQUESTS \<le> count d \<and>
        \<not> fst (isRateLimited now k store) \<longrightarrow> resetTime d < now)"
proof (intro conjI allI impI)
  show "\<exists>d. snd (isRateLimited now k store) k = Some d \<and> 1 \<le> count d"
    by (simp add: isRateLimited_def Let_def)
next
  fix d assume "store k = Some d \<and> now \<le> resetTime d"
  then show "snd (isRateLimited now k store) k = Some (d\<lparr>count := count d + 1\<rparr>)"
    by (simp add: isRateLimited_in_window)
next
  fix d
  assume a: "store k = Some d \<and> RATE_LIMIT_MAX_REQUESTS \<le> count d \<and>
    \<not> fst (isRateLimited now k store)"
  show "resetTime d < now"
  proof (rule ccontr)
    assume "\<not> resetTime d < now"
    then have "fst (isRateLimited now k store)"
      using a by (simp add: isRateLimited_in_window)
    then show False using a by simp
  qed
qed

theorem isRateLimited_records_witness:
  "snd (isRateLimited 50 (js ''anonymous'')
          [js ''anonymous'' \<mapsto> \<lparr>count = 31, resetTime = 100\<rparr>]) (js ''anonymous'') =
     Some \<lparr>count = 32, resetTime = 100\<rparr> \<and>
   fst (isRateLimited 50 (js ''anonymous'')
          [js ''anonymous'' \<mapsto> \<lparr>count = 31, resetTime = 100\<rparr>]) \<and>
   \<not> fst (isRateLimited 101 (js ''anonymous'')
          [js ''anonymous'' \<mapsto> \<lparr>count = 31, resetTime = 100\<rparr>]) \<and>
   (100::int) < 101"
  using isRateLimited_records [of 50 "js ''anonymous''"
          "[js ''anonymous'' \<mapsto> \<lparr>count = 31, resetTime = 100\<rparr>]"]
        isRateLimited_records [of 101 "js ''anonymous''"
          "[js ''anonymous'' \<mapsto> \<lparr>count = 31, resetTime = 100\<rparr>]"]
  by (simp add: isRateLimited_def RATE_LIMIT_MAX_REQUESTS_def)

section \<open>Properties of the matcher\<close>

lemma match_at_length: "match_at re prev s = Some n \<Longrightarrow> n \<le> length s"
  by (induction re prev s arbitrary: n rule: match_at.induct)
     (auto split: if_splits option.splits)

lemma match_at_minlen: "match_at re prev s = Some n \<Longrightarrow> minlen re \<le> n"
  by (induction re prev s arbitrary: n rule: match_at.induct)
     (fastforce split: if_splits option.splits)+

lemma match_at_ctx:
  "is_wordo p = is_wordo p' \<Longrightarrow> match_at re p s = match_at re p' s"
  by (induction re p s arbitrary: p' rule: match_at.induct) (auto split: option.splits)

lemma match_at_barrier:
  "barrier re c \<Longrightarrow> match_at re prev (x @ c # b) = match_at re prev x"
proof (induction re prev x rule: match_at.induct)
  case (2 r prev s)
  then have "is_wordo (hdo (s @ c # b)) = is_wordo (hdo s)"
    by (cases s) (auto simp: barrier_def)
  with 2 show ?case by (auto simp: barrier_def)
qed (auto simp: barrier_def split: option.splits)

lemma match_at_start:
  "match_at (WordB # r) prev s = Some n \<Longrightarrow> is_wordo prev \<noteq> is_wordo (hdo s)"
  by (auto split: if_splits)

lemma ctx_Cons: "ctx (Some c) s = ctx prev (c # s)"
  by (cases s) auto

lemma match_at_end:
  "re \<noteq> [] \<Longrightarrow> last re = WordB \<Longrightarrow> match_at re prev s = Some n \<Longrightarrow>
     is_wordo (ctx prev (take n s)) \<noteq> is_wordo (hdo (drop n s))"
proof (induction re prev s arbitrary: n rule: match_at.induct)
  case (1 prev s)
  then show ?case by simp
next
  case (2 r prev s)
  show ?case
  proof (cases "r = []")
    case True
    with 2 show ?thesis by (auto split: if_splits)
  next
    case False
    with 2 show ?thesis by (auto split: if_splits)
  qed
next
  case (3 P r prev)
  then show ?case by simp
next
  case (4 P r prev c cs)
  then obtain k where k: "in_cset P c" "match_at r (Some c) cs = Some k" "n = Suc k"
    by (auto split: if_splits)
  from 4 have "r \<noteq> []" "last r = WordB" by (auto split: if_splits)
  with 4 k have "is_wordo (ctx (Some c) (take k cs)) \<noteq> is_wordo (hdo (drop k cs))"
    by auto
  then show ?case using k by (simp add: ctx_Cons [of c "take k cs" prev])
next
  case (5 lo hi P r prev)
  then show ?case by (auto split: if_splits)
next
  case (6 lo hi P r prev c cs)
  from 6 have r: "r \<noteq> []" "last r = WordB" by (auto split: if_splits)
  show ?case
  proof (cases "hi \<noteq> Some 0 \<and> in_cset P c")
    case True
    show ?thesis
    proof (cases "match_at (Rep (lo - 1) (dec hi) P # r) (Some c) cs")
      case None
      with True 6 r show ?thesis by (auto split: if_splits)
    next
      case (Some k)
      with True 6 have n: "n = Suc k" by auto
      from Some True 6 r
      have "is_wordo (ctx (Some c) (take k cs)) \<noteq> is_wordo (hdo (drop k cs))"
        by auto
      then show ?thesis using n by (simp add: ctx_Cons [of c "take k cs" prev])
    qed
  next
    case False
    with 6 r show ?thesis by (auto split: if_splits)
  qed
qed

lemma match_at_extend_nonword:
  "match_at re prev x = Some n \<Longrightarrow> \<not> is_wordo (hdo y) \<Longrightarrow> match_at re prev (x @ y) \<noteq> None"
proof (induction re prev x arbitrary: n rule: match_at.induct)
  case (2 r prev s)
  then have "is_wordo (hdo (s @ y)) = is_wordo (hdo s)"
    by (cases s) auto
  with 2 show ?case by (auto split: if_splits)
next
  case (5 lo hi P r prev)
  then show ?case
    by (cases y) (auto split: if_splits option.splits)
next
  case (6 lo hi P r prev c cs)
  then show ?case
    by (auto split: if_splits option.splits)
qed (auto split: if_splits option.splits)

lemma match_at_extend_inner:
  "match_at re prev x = Some n \<Longrightarrow> n < length x \<Longrightarrow> match_at re prev (x @ y) \<noteq> None"
proof (induction re prev x arbitrary: n rule: match_at.induct)
  case (2 r prev s)
  then have "s \<noteq> []" by auto
  then have "is_wordo (hdo (s @ y)) = is_wordo (hdo s)"
    by (cases s) auto
  with 2 show ?case by (auto split: if_splits)
qed (auto split: if_splits option.splits)

lemma bounded_empty: "bounded re \<Longrightarrow> match_at re prev [] = None"
proof (rule ccontr)
  assume b: "bounded re" and "match_at re prev [] \<noteq> None"
  then obtain n where n: "match_at re prev [] = Some n" by auto
  from match_at_length [OF n] match_at_minlen [OF n] b show False
    by (simp add: bounded_def)
qed

lemma bounded_not_zero: "bounded re \<Longrightarrow> match_at re prev s \<noteq> Some 0"
  using match_at_minlen [of re prev s 0] by (auto simp: bounded_def)

lemma bounded_start:
  assumes "bounded re" and "match_at re prev s = Some n"
  shows "is_wordo prev \<noteq> is_wordo (hdo s)"
proof -
  from assms(1) obtain r where "re = WordB # r"
    by (cases re) (auto simp: bounded_def)
  with assms(2) show ?thesis by (auto split: if_splits)
qed

lemma bounded_end:
  assumes "bounded re" and "match_at re prev s = Some n"
  shows "is_wordo (ctx prev (take n s)) \<noteq> is_wordo (hdo (drop n s))"
  using assms match_at_end [of re prev s n] by (simp add: bounded_def)

lemma noMatch_ctx: "is_wordo p = is_wordo p' \<Longrightarrow> noMatch re p s = noMatch re p' s"
  by (cases s) (auto simp: match_at_ctx [of p p'])

lemma replaceAll_noMatch:
  "bounded re \<Longrightarrow> noMatch re prev s \<Longrightarrow> replaceAll re tok prev s = s"
  by (induction s arbitrary: prev) (auto simp: bounded_empty)

lemma noMatch_barrier:
  assumes "bounded re" and "barrier re c"
  shows "noMatch re prev (a @ c # b) = (noMatch re prev a \<and> noMatch re None b)"
proof (induction a arbitrary: prev)
  case Nil
  have "match_at re prev ([] @ c # b) = None"
    using assms by (simp only: match_at_barrier bounded_empty)
  moreover have "noMatch re (Some c) b = noMatch re None b"
    using assms(2) by (intro noMatch_ctx) (simp add: barrier_def)
  ultimately show ?case by simp
next
  case (Cons x xs)
  have "match_at re prev ((x # xs) @ c # b) = match_at re prev (x # xs)"
    using assms(2) by (rule match_at_barrier)
  with Cons show ?case by simp
qed

lemma noMatch_drop:
  "noMatch re prev s \<Longrightarrow> noMatch re (ctx prev (take n s)) (drop n s)"
proof (induction s arbitrary: prev n)
  case Nil
  then show ?case by simp
next
  case (Cons c cs)
  show ?case
  proof (cases n)
    case 0
    with Cons show ?thesis by simp
  next
    case (Suc k)
    from Cons have "noMatch re (ctx (Some c) (take k cs)) (drop k cs)" by simp
    then show ?thesis using Suc by (simp add: ctx_Cons [of c "take k cs" prev])
  qed
qed

text \<open>A match of q in the output that starts in kept text is a match at the same place
  of the input.\<close>

lemma match_at_replaceAll:
  "bounded q \<Longrightarrow> bounded p \<Longrightarrow> barrier q t \<Longrightarrow>
   (x \<noteq> [] \<longrightarrow> is_wordo w = is_word (last x)) \<Longrightarrow>
   match_at q v (x @ replaceAll p (t # tok) w s) \<noteq> None \<Longrightarrow>
   match_at q v (x @ s) \<noteq> None"
proof (induction p "t # tok" w s arbitrary: x rule: replaceAll.induct)
  case (1 re prev)
  then show ?case by (simp add: bounded_empty)
next
  case (2 re prev c cs)
  note q = \<open>bounded q\<close> and p = \<open>bounded re\<close> and bar = \<open>barrier q t\<close>
  show ?case
  proof (cases "match_at re prev (c # cs)")
    case None
    from None "2.prems"(5)
    have "match_at q v ((x @ [c]) @ replaceAll re (t # tok) (Some c) cs) \<noteq> None"
      by simp
    then have "match_at q v ((x @ [c]) @ cs) \<noteq> None"
      using q p bar by (intro "2.hyps"(1) [OF None]) auto
    then show ?thesis by simp
  next
    case (Some n)
    then obtain k where n: "n = Suc k"
      using bounded_not_zero [OF p, of prev "c # cs"] by (cases n) auto
    have "match_at q v (x @ t # tok @ replaceAll re (t # tok) (lasto (take (Suc k) (c # cs))) (drop k cs)) \<noteq> None"
      using "2.prems"(5) Some n by simp
    moreover have "match_at q v (x @ t # tok @ replaceAll re (t # tok) (lasto (take (Suc k) (c # cs))) (drop k cs)) = match_at q v x"
      using bar by (rule match_at_barrier)
    ultimately have "match_at q v x \<noteq> None"
      by simp
    then obtain j where j: "match_at q v x = Some j" by auto
    have x: "x \<noteq> []"
      using j bounded_empty [OF q, of v] by auto
    have junction: "is_word (last x) \<noteq> is_word c"
      using bounded_start [OF p Some] "2.prems"(4) x by simp
    show ?thesis
    proof (cases "is_word c")
      case False
      then show ?thesis
        using match_at_extend_nonword [OF j, of "c # cs"] by simp
    next
      case True
      with junction have nw: "\<not> is_word (last x)" by simp
      have "j \<le> length x" using j by (rule match_at_length)
      moreover have "j \<noteq> length x"
      proof
        assume "j = length x"
        with bounded_end [OF q j] x have "is_word (last x)"
          by (cases x) auto
        with nw show False by simp
      qed
      ultimately have "j < length x" by simp
      then show ?thesis
        using match_at_extend_inner [OF j] by simp
    qed
  qed
qed

lemma noMatch_replaceAll:
  "bounded q \<Longrightarrow> bounded p \<Longrightarrow> inert q tok \<Longrightarrow>
   q = p \<or> noMatch q w s \<Longrightarrow>
   is_wordo w' = is_wordo w \<or> (\<not> is_wordo w' \<and> \<not> is_wordo (hdo s)) \<Longrightarrow>
   noMatch q w' (replaceAll p tok w s)"
proof (induction p tok w s arbitrary: w' rule: replaceAll.induct)
  case (1 re tok prev)
  then show ?case by (simp add: bounded_empty)
next
  case (2 re tok prev c cs)
  note q = \<open>bounded q\<close> and p = \<open>bounded re\<close>
  from \<open>inert q tok\<close> obtain l mid r where
    tok: "tok = l # mid @ [r]" and l: "barrier q l" and r: "barrier q r"
    and mid: "noMatch q None mid"
    by (auto simp: inert_def)
  show ?case
  proof (cases "match_at re prev (c # cs)")
    case None
    let ?out = "replaceAll re tok (Some c) cs"
    have rest: "noMatch q (Some c) ?out"
    proof (rule "2.IH"(1) [OF None q p \<open>inert q tok\<close>])
      show "q = re \<or> noMatch q (Some c) cs" using "2.prems"(4) by auto
      show "is_wordo (Some c) = is_wordo (Some c) \<or>
            \<not> is_wordo (Some c) \<and> \<not> is_wordo (hdo cs)" by simp
    qed
    have here: "match_at q w' (c # ?out) = None"
    proof (rule ccontr)
      assume "match_at q w' (c # ?out) \<noteq> None"
      then have "match_at q w' ([c] @ replaceAll re (l # mid @ [r]) (Some c) cs) \<noteq> None"
        by (simp add: tok)
      then have m: "match_at q w' ([c] @ cs) \<noteq> None"
        by (rule match_at_replaceAll [OF q p l, rotated]) simp
      from "2.prems"(5) show False
      proof
        assume "is_wordo w' = is_wordo prev"
        then have "match_at q prev (c # cs) \<noteq> None"
          using m match_at_ctx [of w' prev q "c # cs"] by simp
        with "2.prems"(4) None show False by auto
      next
        assume "\<not> is_wordo w' \<and> \<not> is_wordo (hdo (c # cs))"
        with m bounded_start [OF q, of w' "c # cs"] show False by auto
      qed
    qed
    show ?thesis using None rest here by simp
  next
    case (Some n)
    then obtain k where n: "n = Suc k"
      using bounded_not_zero [OF p, of prev "c # cs"] by (cases n) auto
    let ?w = "lasto (take (Suc k) (c # cs))"
    let ?out = "replaceAll re tok ?w (drop k cs)"
    have w: "?w = ctx prev (take (Suc k) (c # cs))" by simp
    have "noMatch q None ?out"
    proof (rule "2.IH"(3) [OF Some n q p \<open>inert q tok\<close>])
      show "q = re \<or> noMatch q ?w (drop k cs)"
        using "2.prems"(4) noMatch_drop [of q prev "c # cs" "Suc k"] by auto
      show "is_wordo None = is_wordo ?w \<or> \<not> is_wordo None \<and> \<not> is_wordo (hdo (drop k cs))"
        using bounded_end [OF p Some [unfolded n]] by auto
    qed
    then have "noMatch q None (mid @ r # ?out)"
      using mid by (simp only: noMatch_barrier [OF q r])
    then have "noMatch q w' ([] @ l # (mid @ r # ?out))"
      by (simp only: noMatch_barrier [OF q l]) simp
    then show ?thesis using Some n tok by simp
  qed
qed

section \<open>The redaction patterns\<close>

lemmas pattern_defs = SSN_def LONG_ID_def EMAIL_def digit_def rng_def chr_def
lemmas token_defs = REDACTED_SSN_def REDACTED_ID_def REDACTED_EMAIL_def js_def

lemma bounded_patterns: "bounded SSN" "bounded LONG_ID" "bounded EMAIL"
  by (simp_all add: bounded_def pattern_defs)

lemma barrier_brackets:
  "barrier SSN 91" "barrier SSN 93" "barrier LONG_ID 91" "barrier LONG_ID 93"
  "barrier EMAIL 91" "barrier EMAIL 93"
  by (simp_all add: barrier_def is_word_def pattern_defs)

lemma barrier_space:
  assumes "is_space c"
  shows "barrier SSN c" "barrier LONG_ID c" "barrier EMAIL c"
  using assms by (auto simp: is_space_def barrier_def is_word_def pattern_defs)

lemma inert_SSN:
  "inert SSN REDACTED_SSN" "inert SSN REDACTED_ID" "inert SSN REDACTED_EMAIL"
  unfolding inert_def token_defs
  by (simp_all add: barrier_brackets) (simp_all add: pattern_defs is_word_def)

lemma inert_LONG_ID:
  "inert LONG_ID REDACTED_SSN" "inert LONG_ID REDACTED_ID" "inert LONG_ID REDACTED_EMAIL"
  unfolding inert_def token_defs
  by (simp_all add: barrier_brackets) (simp_all add: pattern_defs is_word_def)

lemma inert_EMAIL:
  "inert EMAIL REDACTED_SSN" "inert EMAIL REDACTED_ID" "inert EMAIL REDACTED_EMAIL"
  unfolding inert_def token_defs
  by (simp_all add: barrier_brackets) (simp_all add: pattern_defs is_word_def)

lemma noMatch_after_own:
  assumes "bounded p" and "inert p tok"
  shows "noMatch p None (replaceAll p tok None s)"
  using assms by (intro noMatch_replaceAll) auto

lemma noMatch_after_other:
  assumes "bounded q" and "bounded p" and "inert q tok" and "noMatch q None s"
  shows "noMatch q None (replaceAll p tok None s)"
  using assms by (intro noMatch_replaceAll) auto

lemma noMatch_drop_prefix:
  assumes "bounded q" and "\<forall>c \<in> set a. barrier q c" and "noMatch q None (a @ b)"
  shows "noMatch q None b"
  using assms(2,3)
proof (induction a)
  case Nil
  then show ?case by simp
next
  case (Cons c a)
  then have c: "barrier q c" by simp
  from Cons.prems(2) have "noMatch q None ([] @ c # (a @ b))" by simp
  then have "noMatch q None (a @ b)"
    by (simp only: noMatch_barrier [OF assms(1) c])
  with Cons show ?case by simp
qed

lemma noMatch_drop_suffix:
  assumes "bounded q" and "\<forall>c \<in> set b. barrier q c" and "noMatch q prev (a @ b)"
  shows "noMatch q prev a"
proof (cases b)
  case Nil
  with assms(3) show ?thesis by simp
next
  case (Cons c b')
  with assms(2) have c: "barrier q c" by simp
  from assms(3) Cons show ?thesis
    by (simp only: noMatch_barrier [OF assms(1) c])
qed

lemma trim_split:
  "s = takeWhile is_space s @ trim s @ rev (takeWhile is_space (rev (dropWhile is_space s)))"
proof -
  let ?d = "dropWhile is_space s"
  have "trim s @ rev (takeWhile is_space (rev ?d)) =
        rev (takeWhile is_space (rev ?d) @ dropWhile is_space (rev ?d))"
    by (simp only: trim_def rev_append)
  also have "\<dots> = ?d"
    by (simp only: takeWhile_dropWhile_id rev_rev_ident)
  finally have "?d = trim s @ rev (takeWhile is_space (rev ?d))"
    by simp
  moreover have "s = takeWhile is_space s @ ?d" by simp
  ultimately show ?thesis by simp
qed

lemma noMatch_trim:
  assumes q: "bounded q" and sp: "\<And>c. is_space c \<Longrightarrow> barrier q c"
    and s: "noMatch q None s"
  shows "noMatch q None (trim s)"
proof -
  let ?a = "takeWhile is_space s"
  let ?b = "rev (takeWhile is_space (rev (dropWhile is_space s)))"
  have a: "\<forall>c \<in> set ?a. barrier q c"
    using sp by (auto dest: set_takeWhileD)
  have b: "\<forall>c \<in> set ?b. barrier q c"
    using sp by (auto dest: set_takeWhileD)
  from s have "noMatch q None (?a @ (trim s @ ?b))"
    using trim_split [of s] by simp
  then have "noMatch q None (trim s @ ?b)"
    using q a by (rule noMatch_drop_prefix [rotated 2])
  then show ?thesis
    using q b by (rule noMatch_drop_suffix [rotated 2])
qed

lemma dropWhile_unchanged: "xs = [] \<or> \<not> P (hd xs) \<Longrightarrow> dropWhile P xs = xs"
  by (cases xs) auto

lemma trim_ends:
  "trim s = [] \<or> (\<not> is_space (hd (trim s)) \<and> \<not> is_space (last (trim s)))"
proof (cases "trim s = []")
  case True
  then show ?thesis by simp
next
  case False
  let ?d = "dropWhile is_space s"
  let ?f = "dropWhile is_space (rev ?d)"
  have t: "trim s = rev ?f" by (simp add: trim_def)
  with False have f: "?f \<noteq> []" by simp
  then have "\<not> is_space (hd ?f)" by (rule hd_dropWhile)
  then have l: "\<not> is_space (last (trim s))"
    using f by (simp add: t last_rev)
  have "?d = trim s @ rev (takeWhile is_space (rev ?d))"
    using takeWhile_dropWhile_id [of is_space "rev ?d"]
    by (metis rev_append rev_rev_ident t)
  then have "hd ?d = hd (trim s)" and "?d \<noteq> []"
    using False by (metis hd_append2, metis append_is_Nil_conv)
  moreover from \<open>?d \<noteq> []\<close> have "\<not> is_space (hd ?d)" by (rule hd_dropWhile)
  ultimately show ?thesis using l by simp
qed

lemma trim_idem: "trim (trim s) = trim s"
proof -
  let ?t = "trim s"
  from trim_ends [of s] have a: "dropWhile is_space ?t = ?t"
    by (intro dropWhile_unchanged) auto
  from trim_ends [of s] have "dropWhile is_space (rev ?t) = rev ?t"
    by (intro dropWhile_unchanged) (auto simp: hd_rev)
  with a show ?thesis by (simp add: trim_def [of "trim s"])
qed

lemma noMatch_sanitize:
  "noMatch SSN None (sanitize s)" "noMatch LONG_ID None (sanitize s)"
  "noMatch EMAIL None (sanitize s)"
proof -
  let ?s1 = "replaceAll SSN REDACTED_SSN None s"
  let ?s2 = "replaceAll LONG_ID REDACTED_ID None ?s1"
  let ?s3 = "replaceAll EMAIL REDACTED_EMAIL None ?s2"
  have "noMatch SSN None ?s1"
    by (rule noMatch_after_own [OF bounded_patterns(1) inert_SSN(1)])
  then have "noMatch SSN None ?s2"
    by (rule noMatch_after_other [OF bounded_patterns(1) bounded_patterns(2) inert_SSN(2)])
  then have "noMatch SSN None ?s3"
    by (rule noMatch_after_other [OF bounded_patterns(1) bounded_patterns(3) inert_SSN(3)])
  then have "noMatch SSN None (trim ?s3)"
    using bounded_patterns(1) barrier_space(1) by (intro noMatch_trim)
  then show "noMatch SSN None (sanitize s)"
    by (simp add: sanitize_def redact_def)
  have "noMatch LONG_ID None ?s2"
    by (rule noMatch_after_own [OF bounded_patterns(2) inert_LONG_ID(2)])
  then have "noMatch LONG_ID None ?s3"
    by (rule noMatch_after_other [OF bounded_patterns(2) bounded_patterns(3) inert_LONG_ID(3)])
  then have "noMatch LONG_ID None (trim ?s3)"
    using bounded_patterns(2) barrier_space(2) by (intro noMatch_trim)
  then show "noMatch LONG_ID None (sanitize s)"
    by (simp add: sanitize_def redact_def)
  have "noMatch EMAIL None ?s3"
    by (rule noMatch_after_own [OF bounded_patterns(3) inert_EMAIL(3)])
  then have "noMatch EMAIL None (trim ?s3)"
    using bounded_patterns(3) barrier_space(3) by (intro noMatch_trim)
  then show "noMatch EMAIL None (sanitize s)"
    by (simp add: sanitize_def redact_def)
qed

lemma redact_unchanged:
  assumes "noMatch SSN None t" and "noMatch LONG_ID None t" and "noMatch EMAIL None t"
  shows "redact t = t"
  using assms by (simp add: redact_def replaceAll_noMatch bounded_patterns)

lemma redact_tokens:
  "redact REDACTED_SSN = REDACTED_SSN" "redact REDACTED_ID = REDACTED_ID"
  "redact REDACTED_EMAIL = REDACTED_EMAIL"
  by (simp_all add: redact_def token_defs pattern_defs is_word_def)

text \<open>
  C7. Sanitizing (the three replacements in the order of the source, then \<open>trim\<close>) is
  idempotent: sanitizing what it has produced changes nothing. In particular the three
  tokens are left as they are by the three replacements.
\<close>

theorem sanitize_idempotent:
  "sanitize (sanitize s) = sanitize s \<and>
   redact REDACTED_SSN = REDACTED_SSN \<and> redact REDACTED_ID = REDACTED_ID \<and>
   redact REDACTED_EMAIL = REDACTED_EMAIL"
proof -
  have "redact (sanitize s) = sanitize s"
    by (rule redact_unchanged) (rule noMatch_sanitize)+
  then have "sanitize (sanitize s) = trim (sanitize s)"
    by (simp add: sanitize_def [of "sanitize s"])
  also have "\<dots> = sanitize s"
    by (simp add: sanitize_def trim_idem)
  finally show ?thesis
    by (simp add: redact_tokens)
qed

section \<open>Properties of the validation\<close>

lemma field_get_prop:
  "get_prop msg k = Inr v \<Longrightarrow> field msg k = v"
  by (cases msg) (auto simp: field_def)

lemma check_message_Inr:
  assumes "check_message msg = Inr m"
  shows "\<exists>r c. field msg (js ''role'') = Some (JStr r) \<and> r \<in> set roles \<and>
               field msg (js ''content'') = Some (JStr c) \<and> c \<noteq> [] \<and>
               length c \<le> MAX_MESSAGE_LENGTH \<and> m = \<lparr>role = r, content = sanitize c\<rparr>"
proof -
  from assms obtain rv cv where
    r: "get_prop msg (js ''role'') = Inr rv" and c: "get_prop msg (js ''content'') = Inr cv"
    by (auto simp: check_message_def split: sum.splits)
  from assms r c have t: "truthy rv" "truthy cv"
    by (auto simp: check_message_def split: if_splits)
  from assms r c t obtain rs where rs: "rv = Some (JStr rs)" "rs \<in> set roles"
    by (auto simp: check_message_def split: option.splits jsval.splits if_splits)
  from assms r c t rs obtain cs where cs: "cv = Some (JStr cs)" "length cs \<le> MAX_MESSAGE_LENGTH"
    "m = \<lparr>role = rs, content = trim (redact cs)\<rparr>"
    by (auto simp: check_message_def split: option.splits jsval.splits if_splits)
  from t cs have "cs \<noteq> []" by simp
  then show ?thesis
    using r c rs cs by (auto simp: field_get_prop sanitize_def)
qed

lemma map_messages_Inr:
  "map_messages msgs = Inr out \<Longrightarrow> list_all2 (\<lambda>msg m. check_message msg = Inr m) msgs out"
  by (induction msgs arbitrary: out) (auto split: sum.splits)

lemma map_messages_isl:
  "isl (map_messages msgs) = (\<exists>msg \<in> set msgs. isl (check_message msg))"
  by (induction msgs) (auto split: sum.splits)

lemma validate_Inr:
  assumes "validateAndSanitizeInput v = Inr conv"
  shows "\<exists>msgs. v = Some (JArr msgs) \<and> msgs \<noteq> [] \<and> length msgs \<le> 10 \<and>
           list_all2 (\<lambda>msg m. check_message msg = Inr m) msgs conv"
proof -
  from assms obtain msgs where v: "v = Some (JArr msgs)"
    by (cases v rule: validateAndSanitizeInput.cases) auto
  with assms have "msgs \<noteq> []" "length msgs \<le> 10" "map_messages msgs = Inr conv"
    by (auto split: if_splits)
  then show ?thesis using v by (auto dest: map_messages_Inr)
qed


text \<open>
  C5. When the call returns, it returns as many messages as it was given, in the same
  order: at each position the role is the role of the input message, and the content is
  the input content, redacted and trimmed.
\<close>

theorem validate_same_length_and_roles:
  assumes "validateAndSanitizeInput v = Inr conv"
  shows "\<exists>msgs. v = Some (JArr msgs) \<and> length conv = length msgs \<and>
           (\<forall>i < length msgs.
              field (msgs ! i) (js ''role'') = Some (JStr (role (conv ! i))) \<and>
              (\<exists>c. field (msgs ! i) (js ''content'') = Some (JStr c) \<and>
                   content (conv ! i) = trim (redact c)))"
proof -
  from validate_Inr [OF assms] obtain msgs where
    v: "v = Some (JArr msgs)" and
    all: "list_all2 (\<lambda>msg m. check_message msg = Inr m) msgs conv"
    by auto
  from all have len: "length conv = length msgs"
    by (simp add: list_all2_lengthD)
  have "field (msgs ! i) (js ''role'') = Some (JStr (role (conv ! i))) \<and>
        (\<exists>c. field (msgs ! i) (js ''content'') = Some (JStr c) \<and>
             content (conv ! i) = trim (redact c))" if "i < length msgs" for i
  proof -
    from all that have "check_message (msgs ! i) = Inr (conv ! i)"
      by (rule list_all2_nthD)
    from check_message_Inr [OF this] show ?thesis
      by (auto simp: sanitize_def)
  qed
  with v len show ?thesis by blast
qed

lemmas eval_defs = js_def roles_def check_message_def MAX_MESSAGE_LENGTH_def trim_def
  is_space_def redact_def SSN_def LONG_ID_def EMAIL_def digit_def rng_def chr_def
  is_word_def REDACTED_SSN_def REDACTED_ID_def REDACTED_EMAIL_def

theorem validate_same_length_and_roles_witness:
  "validateAndSanitizeInput (Some (JArr
      [JObj [(js ''role'', JStr (js ''user'')), (js ''content'', JStr (js '' call 5551234567 ''))],
       JObj [(js ''role'', JStr (js ''assistant'')), (js ''content'', JStr (js ''ok''))]])) =
     Inr [\<lparr>role = js ''user'', content = js ''call [REDACTED-ID]''\<rparr>,
          \<lparr>role = js ''assistant'', content = js ''ok''\<rparr>]"
  using validate_same_length_and_roles [of "Some (JArr
      [JObj [(js ''role'', JStr (js ''user'')), (js ''content'', JStr (js '' call 5551234567 ''))],
       JObj [(js ''role'', JStr (js ''assistant'')), (js ''content'', JStr (js ''ok''))]])"
     "[\<lparr>role = js ''user'', content = js ''call [REDACTED-ID]''\<rparr>,
       \<lparr>role = js ''assistant'', content = js ''ok''\<rparr>]"]
  by (simp add: eval_defs)

lemma trim_unchanged:
  assumes "s = [] \<or> (\<not> is_space (hd s) \<and> \<not> is_space (last s))"
  shows "trim s = s"
proof -
  from assms have a: "dropWhile is_space s = s"
    by (intro dropWhile_unchanged) auto
  from assms have "dropWhile is_space (rev s) = rev s"
    by (intro dropWhile_unchanged) (auto simp: hd_rev)
  with a show ?thesis by (simp add: trim_def)
qed

lemma replaceAll_ctx:
  "is_wordo p = is_wordo p' \<Longrightarrow> replaceAll re tok p s = replaceAll re tok p' s"
  by (cases s) (simp_all add: match_at_ctx [of p p'])

lemma replaceAll_barrier:
  "bounded re \<Longrightarrow> barrier re c \<Longrightarrow>
   replaceAll re tok prev (a @ c # b) = replaceAll re tok prev a @ c # replaceAll re tok None b"
proof (induction re tok prev a rule: replaceAll.induct)
  case (1 re tok prev)
  have "match_at re prev ([] @ c # b) = None"
    using 1 by (simp only: match_at_barrier bounded_empty)
  moreover have "replaceAll re tok (Some c) b = replaceAll re tok None b"
    using 1(2) by (intro replaceAll_ctx) (simp add: barrier_def)
  ultimately show ?case
    using 1(1) by (simp add: bounded_empty)
next
  case (2 re tok prev x xs)
  have same: "match_at re prev ((x # xs) @ c # b) = match_at re prev (x # xs)"
    using "2.prems"(2) by (rule match_at_barrier)
  show ?case
  proof (cases "match_at re prev (x # xs)")
    case None
    with same "2.IH"(1) [OF None "2.prems"] show ?thesis by simp
  next
    case (Some n)
    then obtain k where n: "n = Suc k"
      using bounded_not_zero [OF "2.prems"(1), of prev "x # xs"] by (cases n) auto
    from match_at_length [OF Some] n have k: "k \<le> length xs" by simp
    from "2.IH"(3) [OF Some n "2.prems"] same Some n k show ?thesis by simp
  qed
qed

lemma eval_digits:
  "replaceAll SSN REDACTED_SSN None (js ''1234567890'') = js ''1234567890''"
  "replaceAll LONG_ID REDACTED_ID None (js ''1234567890'') = REDACTED_ID"
  "replaceAll EMAIL REDACTED_EMAIL None REDACTED_ID = REDACTED_ID"
  by (simp_all add: pattern_defs is_word_def token_defs)

lemma barrier_bang: "barrier SSN 33" "barrier LONG_ID 33" "barrier EMAIL 33"
  by (simp_all add: barrier_def is_word_def pattern_defs)

lemma noMatch_bangs:
  assumes "bounded re" and "barrier re 33"
  shows "noMatch re prev (replicate n 33)"
proof (induction n arbitrary: prev)
  case 0
  show ?case by simp
next
  case (Suc n)
  have "noMatch re prev ([] @ 33 # replicate n 33)"
    using Suc by (simp only: noMatch_barrier [OF assms]) simp
  then show ?case by simp
qed

lemma replaceAll_bangs:
  assumes "bounded re" and "barrier re 33"
  shows "replaceAll re tok prev (replicate n 33) = replicate n 33"
  using assms by (simp add: replaceAll_noMatch noMatch_bangs)

lemma redact_digits_bangs:
  "redact (js ''1234567890'' @ replicate (Suc n) 33) = REDACTED_ID @ replicate (Suc n) 33"
  by (simp add: redact_def replaceAll_barrier replaceAll_bangs bounded_patterns barrier_bang
      eval_digits)

lemma sanitize_digits_bangs:
  "sanitize (js ''1234567890'' @ replicate (Suc n) 33) = REDACTED_ID @ replicate (Suc n) 33"
proof -
  have "trim (REDACTED_ID @ replicate (Suc n) 33) = REDACTED_ID @ replicate (Suc n) 33"
    by (rule trim_unchanged) (simp add: token_defs is_space_def)
  then show ?thesis
    by (simp only: sanitize_def redact_digits_bangs)
qed


text \<open>
  C8, as the code has it. A returned message has one of the three roles, and its content
  is the redacted and trimmed form of an input content that was not empty and at most
  4000 code units long; it has no white space at either end. The length and the
  non-emptiness are checked on the input content, before \<open>replace\<close> and \<open>trim\<close>.
\<close>

theorem validate_output_messages:
  assumes "validateAndSanitizeInput v = Inr conv" and "m \<in> set conv"
  shows "role m \<in> set roles \<and> trim (content m) = content m \<and>
         (\<exists>c. c \<noteq> [] \<and> length c \<le> MAX_MESSAGE_LENGTH \<and> content m = trim (redact c))"
proof -
  from validate_Inr [OF assms(1)] obtain msgs where
    all: "list_all2 (\<lambda>msg m. check_message msg = Inr m) msgs conv"
    by auto
  from assms(2) obtain i where i: "i < length conv" "conv ! i = m"
    by (auto simp: in_set_conv_nth)
  with all have "check_message (msgs ! i) = Inr m"
    by (auto simp: list_all2_conv_all_nth)
  from check_message_Inr [OF this] obtain r c where
    "r \<in> set roles" "c \<noteq> []" "length c \<le> MAX_MESSAGE_LENGTH"
    "m = \<lparr>role = r, content = sanitize c\<rparr>"
    by auto
  then show ?thesis
    by (auto simp: sanitize_def trim_idem)
qed

theorem validate_output_messages_witness:
  "validateAndSanitizeInput (Some (JArr
      [JObj [(js ''role'', JStr (js ''system'')), (js ''content'', JStr (js '' be brief ''))]])) =
     Inr [\<lparr>role = js ''system'', content = js ''be brief''\<rparr>] \<and>
   js ''system'' \<in> set roles \<and> trim (js ''be brief'') = js ''be brief''"
  using validate_output_messages [of "Some (JArr
      [JObj [(js ''role'', JStr (js ''system'')), (js ''content'', JStr (js '' be brief ''))]])"
     "[\<lparr>role = js ''system'', content = js ''be brief''\<rparr>]"
     "\<lparr>role = js ''system'', content = js ''be brief''\<rparr>"]
  by (simp add: eval_defs)

text \<open>
  A content of one space is accepted and comes back empty; a content of 4000 code units
  that starts with ten digits is accepted and comes back 4003 code units long.
\<close>

theorem validate_output_messages_counterexample:
  "validateAndSanitizeInput (Some (JArr
      [JObj [(js ''role'', JStr (js ''user'')), (js ''content'', JStr (js '' ''))]])) =
     Inr [\<lparr>role = js ''user'', content = []\<rparr>] \<and>
   length (js ''1234567890'' @ replicate 3990 33) = 4000 \<and>
   validateAndSanitizeInput (Some (JArr
      [JObj [(js ''role'', JStr (js ''user'')),
             (js ''content'', JStr (js ''1234567890'' @ replicate 3990 33))]])) =
     Inr [\<lparr>role = js ''user'', content = js ''[REDACTED-ID]'' @ replicate 3990 33\<rparr>] \<and>
   length (js ''[REDACTED-ID]'' @ replicate 3990 33) = 4003"
proof -
  have space: "validateAndSanitizeInput (Some (JArr
      [JObj [(js ''role'', JStr (js ''user'')), (js ''content'', JStr (js '' ''))]])) =
     Inr [\<lparr>role = js ''user'', content = []\<rparr>]"
    by (simp add: eval_defs)
  have "(3990::nat) = Suc 3989" by simp
  then have n: "replicate 3990 33 = replicate (Suc 3989) (33::nat)"
    by (rule arg_cong)
  have "sanitize (js ''1234567890'' @ replicate 3990 33) = REDACTED_ID @ replicate 3990 33"
    unfolding n by (rule sanitize_digits_bangs)
  then have long: "validateAndSanitizeInput (Some (JArr
      [JObj [(js ''role'', JStr (js ''user'')),
             (js ''content'', JStr (js ''1234567890'' @ replicate 3990 33))]])) =
     Inr [\<lparr>role = js ''user'', content = js ''[REDACTED-ID]'' @ replicate 3990 33\<rparr>]"
    by (simp add: check_message_def sanitize_def roles_def MAX_MESSAGE_LENGTH_def
        REDACTED_ID_def) (simp add: js_def)
  show ?thesis
    using space long by (simp add: js_def)
qed

lemma check_message_isl:
  "isl (check_message msg) = (spec_bad_message msg \<or> empty_content msg)"
proof (cases msg)
  case (JObj kvs)
  show ?thesis
  proof (cases "map_of kvs (js ''role'')")
    case None
    then show ?thesis
      using JObj by (simp add: check_message_def spec_bad_message_def field_def)
  next
    case r: (Some rv)
    show ?thesis
    proof (cases "map_of kvs (js ''content'')")
      case None
      then show ?thesis
        using JObj r by (simp add: check_message_def spec_bad_message_def field_def)
    next
      case c: (Some cv)
      have roles_nonempty: "[] \<notin> set roles" by (simp add: roles_def js_def)
      show ?thesis
        using JObj r c roles_nonempty
        by (cases rv; cases cv)
           (auto simp: check_message_def spec_bad_message_def empty_content_def field_def
                 MAX_MESSAGE_LENGTH_def)
    qed
  qed
qed (simp_all add: check_message_def spec_bad_message_def field_def)

lemma check_message_error:
  assumes "check_message msg = Inl e"
  shows "(msg = JNull \<and> e = TypeError) \<or>
         (msg \<noteq> JNull \<and> (\<exists>reason \<in> set validation_reasons. e = Error reason))"
proof (cases "msg = JNull")
  case True
  with assms show ?thesis by (simp add: check_message_def)
next
  case False
  then obtain rv cv where
    g: "get_prop msg (js ''role'') = Inr rv" "get_prop msg (js ''content'') = Inr cv"
    by (cases msg) simp_all
  have reasons: "Error ''Each message must have role and content'' \<in> Error ` set validation_reasons"
    "Error ''Invalid message role'' \<in> Error ` set validation_reasons"
    "Error ''Message content too long (max 4000 characters)'' \<in> Error ` set validation_reasons"
    by (simp_all add: validation_reasons_def)
  have "e \<in> Error ` set validation_reasons"
  proof (cases "\<not> truthy rv \<or> \<not> truthy cv")
    case True
    with assms g reasons(1) show ?thesis by (simp add: check_message_def)
  next
    case t: False
    show ?thesis
    proof (cases "\<exists>rs. rv = Some (JStr rs) \<and> rs \<in> set roles")
      case False
      with assms g t have "e = Error ''Invalid message role''"
        by (cases rv; cases "the rv") (simp_all add: check_message_def)
      with reasons(2) show ?thesis by simp
    next
      case True
      then obtain rs where rs: "rv = Some (JStr rs)" "rs \<in> set roles" by blast
      with assms g t have "e = Error ''Message content too long (max 4000 characters)''"
        by (cases cv; cases "the cv") (simp_all add: check_message_def split: if_splits)
      with reasons(3) show ?thesis by simp
    qed
  qed
  then have "\<exists>reason \<in> set validation_reasons. e = Error reason"
    by auto
  with False show ?thesis by simp
qed

lemma map_messages_Inl:
  "map_messages msgs = Inl e \<Longrightarrow>
     \<exists>msg. find offending msgs = Some msg \<and> check_message msg = Inl e"
proof (induction msgs)
  case Nil
  then show ?case by simp
next
  case (Cons x xs)
  show ?case
  proof (cases "check_message x")
    case (Inl e')
    then have "offending x"
      using check_message_isl [of x] by (simp add: offending_def)
    with Inl Cons.prems show ?thesis by simp
  next
    case (Inr m)
    then have "\<not> offending x"
      using check_message_isl [of x] by (simp add: offending_def)
    moreover from Inr Cons.prems have "map_messages xs = Inl e"
      by (simp split: sum.splits)
    ultimately show ?thesis using Cons.IH by simp
  qed
qed

lemma validate_error_kind:
  assumes "validateAndSanitizeInput v = Inl e"
  shows "(null_reached v \<and> e = TypeError) \<or>
         (\<not> null_reached v \<and> (\<exists>reason \<in> set validation_reasons. e = Error reason))"
proof (cases v rule: validateAndSanitizeInput.cases)
  case (1 msgs)
  show ?thesis
  proof (cases "msgs = [] \<or> length msgs > 10")
    case True
    with 1 assms show ?thesis
      by (auto simp: validation_reasons_def split: if_splits)
  next
    case False
    with 1 assms have "map_messages msgs = Inl e" by simp
    from map_messages_Inl [OF this] obtain msg where
      m: "find offending msgs = Some msg" "check_message msg = Inl e"
      by blast
    from check_message_error [OF m(2)] m(1) False 1 show ?thesis
      by auto
  qed
qed (use assms in \<open>simp_all add: validation_reasons_def\<close>)

lemma find_Some_mem: "find P xs = Some x \<Longrightarrow> x \<in> set xs"
  by (induction xs) (auto split: if_splits)

lemma validate_TypeError_iff:
  "(validateAndSanitizeInput v = Inl TypeError) = null_reached v"
proof
  assume "validateAndSanitizeInput v = Inl TypeError"
  from validate_error_kind [OF this] show "null_reached v" by auto
next
  assume n: "null_reached v"
  have "\<exists>msgs. v = Some (JArr msgs)"
  proof (cases v)
    case None
    with n show ?thesis by simp
  next
    case (Some x)
    with n show ?thesis by (cases x) simp_all
  qed
  then obtain msgs where v: "v = Some (JArr msgs)" by blast
  from n v have ok: "msgs \<noteq> []" "length msgs \<le> 10"
    and f: "find offending msgs = Some JNull"
    by simp_all
  from f have "JNull \<in> set msgs"
    by (rule find_Some_mem)
  moreover have "isl (check_message JNull)"
    by (simp add: check_message_def)
  ultimately have "isl (map_messages msgs)"
    unfolding map_messages_isl by blast
  with v ok have "isl (validateAndSanitizeInput v)"
    by simp
  then obtain e where e: "validateAndSanitizeInput v = Inl e"
    by (cases "validateAndSanitizeInput v") simp_all
  from validate_error_kind [OF e] n e show "validateAndSanitizeInput v = Inl TypeError"
    by blast
qed

text \<open>
  C2, as the code has it. The call fails exactly in the cases that the specification
  lists and, besides them, when the content of an element is the empty string: the
  check \<open>!msg.content\<close> treats an empty content like a missing one. Unless the first
  element that the callback fails on is \<open>null\<close>, the failure is a ValidationError: the
  validation's own \<open>Error\<close> with one of its five reasons.
\<close>

theorem validate_fails_iff:
  "(isl (validateAndSanitizeInput v) =
      (spec_rejects v \<or> (\<exists>msgs. v = Some (JArr msgs) \<and> list_ex empty_content msgs))) \<and>
   (\<not> null_reached v \<longrightarrow>
      (\<exists>reason \<in> set validation_reasons. validateAndSanitizeInput v = Inl (Error reason)) =
      (spec_rejects v \<or> (\<exists>msgs. v = Some (JArr msgs) \<and> list_ex empty_content msgs)))"
proof -
  have fails: "isl (validateAndSanitizeInput v) =
      (spec_rejects v \<or> (\<exists>msgs. v = Some (JArr msgs) \<and> list_ex empty_content msgs))"
  proof (cases v rule: validateAndSanitizeInput.cases)
    case (1 msgs)
    then show ?thesis
      by (auto simp: map_messages_isl check_message_isl list_ex_iff)
  qed simp_all
  have kind: "(\<exists>reason \<in> set validation_reasons.
        validateAndSanitizeInput v = Inl (Error reason)) = isl (validateAndSanitizeInput v)"
    if "\<not> null_reached v"
  proof
    assume "\<exists>reason \<in> set validation_reasons. validateAndSanitizeInput v = Inl (Error reason)"
    then show "isl (validateAndSanitizeInput v)" by auto
  next
    assume "isl (validateAndSanitizeInput v)"
    then obtain e where e: "validateAndSanitizeInput v = Inl e"
      by (cases "validateAndSanitizeInput v") simp_all
    from validate_error_kind [OF e] that e
    show "\<exists>reason \<in> set validation_reasons. validateAndSanitizeInput v = Inl (Error reason)"
      by auto
  qed
  from fails kind show ?thesis by simp
qed

theorem validate_fails_iff_witness:
  "validateAndSanitizeInput (Some (JArr [])) =
     Inl (Error ''Messages must be a non-empty array'') \<and>
   validateAndSanitizeInput (Some (JArr (replicate 11
      (JObj [(js ''role'', JStr (js ''user'')), (js ''content'', JStr (js ''hi''))])))) =
     Inl (Error ''Too many messages in conversation'') \<and>
   validateAndSanitizeInput (Some (JArr
      [JObj [(js ''role'', JStr (js ''moderator'')), (js ''content'', JStr (js ''hi''))]])) =
     Inl (Error ''Invalid message role'') \<and>
   validateAndSanitizeInput (Some (JArr
      [JObj [(js ''role'', JStr (js ''user'')), (js ''content'', JStr (replicate 4001 120))]])) =
     Inl (Error ''Message content too long (max 4000 characters)'') \<and>
   \<not> isl (validateAndSanitizeInput (Some (JArr
      [JObj [(js ''role'', JStr (js ''user'')), (js ''content'', JStr (js ''hi''))]])))"
  using validate_fails_iff [of "Some (JArr [])"]
    validate_fails_iff [of "Some (JArr (replicate 11
      (JObj [(js ''role'', JStr (js ''user'')), (js ''content'', JStr (js ''hi''))])))"]
    validate_fails_iff [of "Some (JArr
      [JObj [(js ''role'', JStr (js ''moderator'')), (js ''content'', JStr (js ''hi''))]])"]
    validate_fails_iff [of "Some (JArr
      [JObj [(js ''role'', JStr (js ''user'')), (js ''content'', JStr (replicate 4001 120))]])"]
    validate_fails_iff [of "Some (JArr
      [JObj [(js ''role'', JStr (js ''user'')), (js ''content'', JStr (js ''hi''))]])"]
  by (simp add: spec_bad_message_def empty_content_def field_def roles_def js_def
      check_message_def MAX_MESSAGE_LENGTH_def)

text \<open>
  An element with role \<open>user\<close> and the empty string as content has both fields, a role
  of the enumerated set and a text content of length 0, and the call fails on it with
  the validation's \<open>Error\<close>. On an element \<open>null\<close> the call fails as the specification
  says, but with the TypeError of reading \<open>msg.role\<close>.
\<close>

theorem validate_fails_counterexample:
  "validateAndSanitizeInput (Some (JArr
      [JObj [(js ''role'', JStr (js ''user'')), (js ''content'', JStr [])]])) =
     Inl (Error ''Each message must have role and content'') \<and>
   \<not> spec_rejects (Some (JArr
      [JObj [(js ''role'', JStr (js ''user'')), (js ''content'', JStr [])]])) \<and>
   spec_rejects (Some (JArr [JNull])) \<and>
   validateAndSanitizeInput (Some (JArr [JNull])) = Inl TypeError"
  by (simp add: check_message_def spec_bad_message_def field_def roles_def js_def)

lemma lasto_ctx: "lasto a = ctx None a"
  by (cases a) simp_all

lemma replaceAll_has_token:
  "bounded p \<Longrightarrow> \<not> noMatch p prev s \<Longrightarrow> sublist tok (replaceAll p tok prev s)"
proof (induction s arbitrary: prev)
  case Nil
  then show ?case by simp
next
  case (Cons c cs)
  show ?case
  proof (cases "match_at p prev (c # cs)")
    case None
    with Cons.prems have "\<not> noMatch p (Some c) cs" by simp
    then have "sublist tok (replaceAll p tok (Some c) cs)"
      using Cons.prems(1) by (intro Cons.IH)
    then show ?thesis
      using None by (simp add: sublist_Cons_right)
  next
    case (Some n)
    then obtain k where "n = Suc k"
      using bounded_not_zero [OF Cons.prems(1), of prev "c # cs"] by (cases n) auto
    with Some show ?thesis
      by (simp add: sublist_append_rightI)
  qed
qed

lemma noMatch_position:
  assumes "noMatch q prev (a @ b)" and "b \<noteq> []"
  shows "match_at q (ctx prev a) b = None"
proof -
  from noMatch_drop [OF assms(1), of "length a"]
  have "noMatch q (ctx prev a) b" by simp
  with assms(2) show ?thesis by (cases b) simp_all
qed

lemma is_ssn_match:
  assumes "is_ssn w" and "\<not> is_wordo prev" and "\<not> is_wordo (hdo b)"
  shows "match_at SSN prev (w @ b) = Some 11"
proof -
  from assms(1) obtain d1 d2 d3 h1 d4 d5 h2 d6 d7 d8 d9 where
    w: "w = [d1, d2, d3, h1, d4, d5, h2, d6, d7, d8, d9]" and
    d: "in_cset digit d1" "in_cset digit d2" "in_cset digit d3" "in_cset digit d4"
       "in_cset digit d5" "in_cset digit d6" "in_cset digit d7" "in_cset digit d8"
       "in_cset digit d9" and
    h: "h1 = 45" "h2 = 45"
    by (auto simp: is_ssn_def ssn_shape_def list_all2_Cons1 chr_def)
  from d(1,9) have word: "is_word d1" "is_word d9"
    by (auto simp: digit_def rng_def chr_def is_word_def)
  show ?thesis
    using assms(2,3) d h word
    by (cases b) (simp_all add: w SSN_def chr_def)
qed


lemma token_survives_replaceAll:
  assumes q: "bounded q" and inert: "inert q tok" and sub: "sublist tok s"
  shows "sublist tok (replaceAll q tok' prev s)"
proof -
  from inert obtain l mid r where
    tok: "tok = l # mid @ [r]" and l: "barrier q l" and r: "barrier q r"
    and mid: "noMatch q None mid"
    by (auto simp: inert_def)
  from sub obtain a b where s: "s = a @ tok @ b"
    by (auto simp: sublist_def)
  have "replaceAll q tok' prev (a @ l # (mid @ r # b)) =
        replaceAll q tok' prev a @ l # replaceAll q tok' None (mid @ r # b)"
    using q l by (rule replaceAll_barrier)
  also have "replaceAll q tok' None (mid @ r # b) =
        replaceAll q tok' None mid @ r # replaceAll q tok' None b"
    using q r by (rule replaceAll_barrier)
  also have "replaceAll q tok' None mid = mid"
    using q mid by (rule replaceAll_noMatch)
  finally have "replaceAll q tok' prev s =
        replaceAll q tok' prev a @ tok @ replaceAll q tok' None b"
    by (simp add: s tok)
  then show ?thesis
    by (auto simp: sublist_def)
qed

lemma dropWhile_keeps:
  "\<not> P l \<Longrightarrow> \<exists>a'. dropWhile P (a @ l # rest) = a' @ l # rest"
  by (induction a) (auto intro: exI [of _ "[]"] exI [of _ "x # xs" for x xs])

lemma token_survives_trim:
  assumes tok: "tok = l # mid @ [r]" and l: "\<not> is_space l" and r: "\<not> is_space r"
    and sub: "sublist tok s"
  shows "sublist tok (trim s)"
proof -
  from sub obtain a b where s: "s = a @ tok @ b"
    by (auto simp: sublist_def)
  from dropWhile_keeps [of is_space l a "mid @ r # b"] l obtain a' where
    d: "dropWhile is_space s = a' @ l # mid @ r # b"
    by (auto simp: s tok)
  from dropWhile_keeps [of is_space r "rev b" "rev mid @ l # rev a'"] r obtain b' where
    "dropWhile is_space (rev (dropWhile is_space s)) = b' @ r # rev mid @ l # rev a'"
    by (auto simp: d)
  then have "trim s = a' @ tok @ rev b'"
    by (simp add: trim_def tok)
  then show ?thesis
    by (auto simp: sublist_def)
qed

lemma sanitize_has_token:
  assumes "\<not> noMatch SSN None s"
  shows "sublist REDACTED_SSN (sanitize s)"
proof -
  let ?s1 = "replaceAll SSN REDACTED_SSN None s"
  let ?s2 = "replaceAll LONG_ID REDACTED_ID None ?s1"
  let ?s3 = "replaceAll EMAIL REDACTED_EMAIL None ?s2"
  have "sublist REDACTED_SSN ?s1"
    using bounded_patterns(1) assms by (rule replaceAll_has_token)
  then have "sublist REDACTED_SSN ?s2"
    by (rule token_survives_replaceAll [OF bounded_patterns(2) inert_LONG_ID(1)])
  then have "sublist REDACTED_SSN ?s3"
    by (rule token_survives_replaceAll [OF bounded_patterns(3) inert_EMAIL(1)])
  then have "sublist REDACTED_SSN (trim ?s3)"
    by (intro token_survives_trim [of REDACTED_SSN 91 "js ''REDACTED-SSN''" 93])
       (simp_all add: token_defs is_space_def)
  then show ?thesis
    by (simp add: sanitize_def redact_def)
qed

text \<open>
  C4, as the code has it. The pattern is \<open>\b\d{3}-\d{2}-\d{4}\b\<close>: it matches the digits
  only where no letter, digit or underscore stands directly before or after them. When
  an accepted content holds such an occurrence, the returned content holds the token
  \<open>[REDACTED-SSN]\<close> and no such occurrence any more; the replacement is the first of
  the three.
\<close>

theorem validate_redacts_ssn:
  assumes ok: "validateAndSanitizeInput (Some (JArr msgs)) = Inr conv"
    and i: "i < length msgs"
    and c: "field (msgs ! i) (js ''content'') = Some (JStr (a @ w @ b))"
    and w: "is_ssn w"
    and before: "\<not> is_wordo (lasto a)"
    and after: "\<not> is_wordo (hdo b)"
  shows "content (conv ! i) =
           trim (replaceAll EMAIL REDACTED_EMAIL None
                  (replaceAll LONG_ID REDACTED_ID None
                    (replaceAll SSN REDACTED_SSN None (a @ w @ b)))) \<and>
         sublist REDACTED_SSN (content (conv ! i)) \<and>
         (\<forall>a' w' b'. content (conv ! i) = a' @ w' @ b' \<and> is_ssn w' \<longrightarrow>
            is_wordo (lasto a') \<or> is_wordo (hdo b'))"
proof -
  from validate_Inr [OF ok] have
    "list_all2 (\<lambda>msg m. check_message msg = Inr m) msgs conv"
    by simp
  with i have "check_message (msgs ! i) = Inr (conv ! i)"
    by (rule list_all2_nthD [rotated])
  from check_message_Inr [OF this] c
  have out: "content (conv ! i) = sanitize (a @ w @ b)"
    by auto
  have w_ne: "w \<noteq> []"
    using w by (auto simp: is_ssn_def ssn_shape_def)
  have "match_at SSN (ctx None a) (w @ b) = Some 11"
    using w before after by (intro is_ssn_match) (simp_all add: lasto_ctx)
  then have "\<not> noMatch SSN None (a @ (w @ b))"
    using noMatch_position [of SSN None a "w @ b"] w_ne by auto
  then have token: "sublist REDACTED_SSN (sanitize (a @ w @ b))"
    by (intro sanitize_has_token) simp
  have gone: "is_wordo (lasto a') \<or> is_wordo (hdo b')"
    if "sanitize (a @ w @ b) = a' @ w' @ b' \<and> is_ssn w'" for a' w' b'
  proof (rule ccontr)
    assume "\<not> (is_wordo (lasto a') \<or> is_wordo (hdo b'))"
    with that have "match_at SSN (ctx None a') (w' @ b') = Some 11"
      by (intro is_ssn_match) (simp_all add: lasto_ctx)
    moreover have "w' @ b' \<noteq> []"
      using that by (auto simp: is_ssn_def ssn_shape_def)
    moreover have "noMatch SSN None (a' @ (w' @ b'))"
      using noMatch_sanitize(1) [of "a @ w @ b"] that by simp
    ultimately show False
      using noMatch_position [of SSN None a' "w' @ b'"] by simp
  qed
  show ?thesis
  proof (intro conjI allI impI)
    show "content (conv ! i) =
           trim (replaceAll EMAIL REDACTED_EMAIL None
                  (replaceAll LONG_ID REDACTED_ID None
                    (replaceAll SSN REDACTED_SSN None (a @ w @ b))))"
      using out by (simp add: sanitize_def redact_def)
    show "sublist REDACTED_SSN (content (conv ! i))"
      using token out by simp
    fix a' w' b'
    assume "content (conv ! i) = a' @ w' @ b' \<and> is_ssn w'"
    then show "is_wordo (lasto a') \<or> is_wordo (hdo b')"
      using gone [of a' w' b'] out by simp
  qed
qed


theorem validate_redacts_ssn_witness:
  "validateAndSanitizeInput (Some (JArr
      [JObj [(js ''role'', JStr (js ''user'')),
             (js ''content'', JStr (js ''ssn '' @ js ''123-45-6789'' @ js ''.''))]])) =
     Inr [\<lparr>role = js ''user'', content = js ''ssn [REDACTED-SSN].''\<rparr>] \<and>
   is_ssn (js ''123-45-6789'') \<and>
   sublist REDACTED_SSN (js ''ssn [REDACTED-SSN].'')"
  using validate_redacts_ssn [of
      "[JObj [(js ''role'', JStr (js ''user'')),
              (js ''content'', JStr (js ''ssn '' @ js ''123-45-6789'' @ js ''.''))]]"
      "[\<lparr>role = js ''user'', content = js ''ssn [REDACTED-SSN].''\<rparr>]"
      0 "js ''ssn ''" "js ''123-45-6789''" "js ''.''"]
  by (simp add: eval_defs field_def is_ssn_def ssn_shape_def)

text \<open>
  The digits directly after the letters \<open>ID\<close> have the shape, and the content comes
  back as it was, without the token.
\<close>

theorem validate_redacts_ssn_counterexample:
  "validateAndSanitizeInput (Some (JArr
      [JObj [(js ''role'', JStr (js ''user'')),
             (js ''content'', JStr (js ''ID'' @ js ''123-45-6789''))]])) =
     Inr [\<lparr>role = js ''user'', content = js ''ID'' @ js ''123-45-6789''\<rparr>] \<and>
   is_ssn (js ''123-45-6789'') \<and>
   \<not> sublist REDACTED_SSN (js ''ID'' @ js ''123-45-6789'')"
  by (simp add: eval_defs is_ssn_def ssn_shape_def sublist_code)

section \<open>Properties of the handler\<close>








lemmas cors_defs = getCorsHeaders_def allow_origin_def ALLOWED_ORIGINS_def js_def
  syntax_chars_def

lemma match_at_dot_star:
  "\<forall>c \<in> set x. in_cset Dot c \<Longrightarrow> match_at r (ctx prev x) y \<noteq> None \<Longrightarrow>
   match_at (Rep 0 None Dot # r) prev (x @ y) \<noteq> None"
proof (induction x arbitrary: prev)
  case Nil
  then show ?case
    by (cases y) (auto split: option.splits)
next
  case (Cons c x)
  from Cons.prems(2) have "match_at r (ctx (Some c) x) y \<noteq> None"
    by (simp add: ctx_Cons [of c x prev])
  with Cons have "match_at (Rep 0 None Dot # r) (Some c) (x @ y) \<noteq> None"
    by simp
  with Cons.prems(1) show ?case
    by (auto split: option.splits)
qed

lemma spec_entry_matches_wildcard:
  assumes "spec_entry_matches (js ''https://*.azurestaticapps.net'') origin"
  shows "\<exists>x. origin = js ''https://'' @ x @ js ''.azurestaticapps.net''"
proof -
  let ?pre = "js ''https://''" and ?post = "js ''.azurestaticapps.net''"
  from assms have len: "length ?pre + length ?post \<le> length origin"
    and pre: "take (length ?pre) origin = ?pre"
    and post: "drop (length origin - length ?post) origin = ?post"
    by (simp_all add: spec_entry_matches_def js_def)
  let ?x = "take (length origin - length ?pre - length ?post) (drop (length ?pre) origin)"
  have k: "length origin - length ?pre - length ?post + length ?pre =
      length origin - length ?post"
    using len by simp
  have "?pre @ ?x @ ?post =
      take (length ?pre) origin @ ?x @
        drop (length origin - length ?pre - length ?post) (drop (length ?pre) origin)"
    using pre post by (simp only: drop_drop k)
  also have "\<dots> = take (length ?pre) origin @ drop (length ?pre) origin"
    by (simp only: append_take_drop_id)
  also have "\<dots> = origin"
    by (simp only: append_take_drop_id)
  finally have "origin = ?pre @ ?x @ ?post"
    by simp
  then show ?thesis by blast
qed

text \<open>
  One direction of C3 holds: an origin without line terminators that is an entry of
  \<open>ALLOWED_ORIGINS\<close>, or the wildcard entry with its \<open>*\<close> replaced by some text, is echoed.
\<close>

lemma getCorsHeaders_echoes_allowed:
  assumes "list_ex (\<lambda>entry. spec_entry_matches entry origin) ALLOWED_ORIGINS"
    and "\<forall>c \<in> set origin. in_cset Dot c"
  shows "allow_origin ALLOWED_ORIGINS (Str origin) = Some (Str origin)"
proof -
  from assms(1) consider
    "origin = js ''https://mentora-app.azurestaticapps.net''" |
    "spec_entry_matches (js ''https://*.azurestaticapps.net'') origin"
    by (auto simp: ALLOWED_ORIGINS_def spec_entry_matches_def js_def)
  then show ?thesis
  proof cases
    case 1
    then show ?thesis by (simp add: cors_defs)
  next
    case 2
    from spec_entry_matches_wildcard [OF 2] obtain x where
      o: "origin = js ''https://'' @ x @ js ''.azurestaticapps.net''"
      by blast
    with assms(2) have x: "\<forall>c \<in> set x. in_cset Dot c" by simp
    obtain r where r: "RegExp (replace_star (js ''https://*.azurestaticapps.net'')) =
        Some (map (\<lambda>c. Cls (Ranges [(c, c)])) (js ''https://'') @ Rep 0 None Dot # r)"
      and tail: "\<And>prev. match_at r prev (js ''.azurestaticapps.net'') \<noteq> None"
      by (simp add: js_def syntax_chars_def)
    have "match_at (Rep 0 None Dot # r) (Some 47) (x @ js ''.azurestaticapps.net'') \<noteq> None"
      using x tail by (rule match_at_dot_star)
    then have "match_at (map (\<lambda>c. Cls (Ranges [(c, c)])) (js ''https://'') @ Rep 0 None Dot # r)
        None origin \<noteq> None"
      by (simp add: o js_def)
    then have "test (map (\<lambda>c. Cls (Ranges [(c, c)])) (js ''https://'') @ Rep 0 None Dot # r)
        None origin"
      by (simp add: o js_def)
    moreover have "of_char CHR ''*'' \<notin> set (js ''https://mentora-app.azurestaticapps.net'')"
      and "of_char CHR ''*'' \<in> set (js ''https://*.azurestaticapps.net'')"
      by (simp_all add: js_def)
    ultimately have "some_allowed ALLOWED_ORIGINS (Str origin) = Some True"
      using r by (simp add: ALLOWED_ORIGINS_def)
    then show ?thesis
      by (simp add: allow_origin_def)
  qed
qed

text \<open>
  C3. The wildcard entry is tested as the regular expression
  \<open>https://.*.azurestaticapps.net\<close>, which is not anchored and whose dots match any code
  unit: an origin that only contains such text is echoed, although it is not the entry
  with its \<open>*\<close> replaced.
\<close>

theorem getCorsHeaders_echoes_foreign_origin:
  "map_option (\<lambda>h. map_of h ''Access-Control-Allow-Origin'')
     (getCorsHeaders (Str (js ''https://x.azurestaticapps.net.evil.com''))) =
     Some (Some (Str (js ''https://x.azurestaticapps.net.evil.com''))) \<and>
   \<not> list_ex (\<lambda>entry. spec_entry_matches entry (js ''https://x.azurestaticapps.net.evil.com''))
       ALLOWED_ORIGINS"
  by (simp add: cors_defs spec_entry_matches_def)

lemma allow_origin_spec_examples:
  "allow_origin [js ''https://a.com'', js ''https://*.b.net''] (Str (js ''https://x.b.net'')) =
     Some (Str (js ''https://x.b.net''))"
  "allow_origin [js ''https://a.com'', js ''https://*.b.net''] (Str (js ''https://evil.com'')) =
     Some (Str (js ''https://a.com''))"
  "allow_origin [js ''https://a.com'', js ''https://*.b.net'']
     (Str (js ''https://x.b.net.evil.com'')) = Some (Str (js ''https://x.b.net.evil.com''))"
  "allow_origin [js ''https://a.com'', js ''https://*.b.net'']
     (Str (js ''https://evilxb.net'')) = Some (Str (js ''https://evilxb.net''))"
  by (simp_all add: cors_defs)

text \<open>
  C10. Without an \<open>Origin\<close> header the handler passes \<open>null\<close>; for \<open>null\<close> and for
  \<open>undefined\<close> the header \<open>Access-Control-Allow-Origin\<close> is the first entry of
  \<open>ALLOWED_ORIGINS\<close>.
\<close>

theorem getCorsHeaders_without_origin:
  "request_origin None None = Null \<and>
   map_option (\<lambda>h. map_of h ''Access-Control-Allow-Origin'') (getCorsHeaders Null) =
     Some (Some (Str (ALLOWED_ORIGINS ! 0))) \<and>
   map_option (\<lambda>h. map_of h ''Access-Control-Allow-Origin'') (getCorsHeaders Undefined) =
     Some (Some (Str (ALLOWED_ORIGINS ! 0))) \<and>
   ALLOWED_ORIGINS ! 0 = js ''https://mentora-app.azurestaticapps.net''"
  by (simp add: cors_defs)

end
